theory Spec2Isabelle
  imports Complex_Main "HOL-Library.Char_ord" "HOL-Library.List_Lexorder" "HOL-Library.AList"
    "HOL-Library.Log_Nat"
begin

section \<open>Values and errors\<close>

text \<open>
  The program is a Python script over pandas and numpy. Every exception that one of its
  three computations can raise is a value of \<open>error\<close>; a computation returns
  \<open>error + result\<close>, with \<open>Inl\<close> for the exception that leaves the function.
\<close>

datatype error = ReadError | KeyError | ValueError | IndexError | ZeroDivisionError

text \<open>
  Prices are numpy \<open>float64\<close> values (IEEE 754 binary64). A finite one is the rational
  number it stands for; the values without a finite result (\<open>nan\<close> and the two
  infinities, which numpy produces with a warning and no exception) are constructors of
  their own. The two zeros of binary64 are one value: the script never divides by a zero
  that is a result of float arithmetic, the only place where they differ.
\<close>

datatype npfloat = Fin rat | NaN | PInf | NInf

definition inf_of_sign :: "bool \<Rightarrow> npfloat" where
  "inf_of_sign positive = (if positive then PInf else NInf)"

subsection \<open>Rounding to binary64\<close>

text \<open>
  Every arithmetic operation of binary64 returns the exact result rounded to the nearest
  representable value, ties to the even significand. A finite binary64 value is an integer
  below \<open>2^53\<close> in magnitude times \<open>2^(e - 52)\<close> with \<open>-1022 \<le> e \<le> 1023\<close>; a result that
  rounds to \<open>2^1024\<close> or beyond is an infinity.
\<close>

definition pow2 :: "int \<Rightarrow> rat" where
  "pow2 k = (if 0 \<le> k then 2 ^ nat k else 1 / 2 ^ nat (- k))"

text \<open>The exponent \<open>e\<close> with \<open>2^e \<le> a < 2^(e + 1)\<close> of a positive rational.\<close>

definition ilog2 :: "rat \<Rightarrow> int" where
  "ilog2 a =
     (let k = bitlen (fst (quotient_of a)) - bitlen (snd (quotient_of a))
      in if pow2 k \<le> a then k else k - 1)"

definition round_half_even :: "rat \<Rightarrow> int" where
  "round_half_even q =
     (let f = \<lfloor>q\<rfloor>; r = q - of_int f
      in if r < 1 / 2 then f else if 1 / 2 < r then f + 1 else if even f then f else f + 1)"

definition fl :: "rat \<Rightarrow> npfloat" where
  "fl x =
     (if x = 0 then Fin 0
      else
        let a = \<bar>x\<bar>;
            e = max (ilog2 a) (- 1022);
            ulp = pow2 (e - 52);
            r = of_int (round_half_even (a / ulp)) * ulp
        in if r < pow2 1024 then Fin (if 0 < x then r else - r) else inf_of_sign (0 < x))"

subsection \<open>Arithmetic\<close>

fun fneg :: "npfloat \<Rightarrow> npfloat" where
  "fneg (Fin a) = Fin (- a)"
| "fneg NaN = NaN"
| "fneg PInf = NInf"
| "fneg NInf = PInf"

fun fadd :: "npfloat \<Rightarrow> npfloat \<Rightarrow> npfloat" where
  "fadd (Fin a) (Fin b) = fl (a + b)"
| "fadd NaN y = NaN"
| "fadd x NaN = NaN"
| "fadd PInf NInf = NaN"
| "fadd NInf PInf = NaN"
| "fadd PInf y = PInf"
| "fadd x PInf = PInf"
| "fadd NInf y = NInf"
| "fadd x NInf = NInf"

definition fsub :: "npfloat \<Rightarrow> npfloat \<Rightarrow> npfloat" where
  "fsub x y = fadd x (fneg y)"

fun fmul :: "npfloat \<Rightarrow> npfloat \<Rightarrow> npfloat" where
  "fmul (Fin a) (Fin b) = fl (a * b)"
| "fmul NaN y = NaN"
| "fmul x NaN = NaN"
| "fmul PInf (Fin b) = (if b = 0 then NaN else inf_of_sign (0 < b))"
| "fmul NInf (Fin b) = (if b = 0 then NaN else inf_of_sign (b < 0))"
| "fmul (Fin a) PInf = (if a = 0 then NaN else inf_of_sign (0 < a))"
| "fmul (Fin a) NInf = (if a = 0 then NaN else inf_of_sign (a < 0))"
| "fmul PInf PInf = PInf"
| "fmul PInf NInf = NInf"
| "fmul NInf PInf = NInf"
| "fmul NInf NInf = PInf"

text \<open>Division as numpy does it: a zero divisor gives \<open>nan\<close> or an infinity.\<close>

fun fdiv :: "npfloat \<Rightarrow> npfloat \<Rightarrow> npfloat" where
  "fdiv (Fin a) (Fin b) =
     (if b = 0 then (if a = 0 then NaN else inf_of_sign (0 < a)) else fl (a / b))"
| "fdiv NaN y = NaN"
| "fdiv x NaN = NaN"
| "fdiv (Fin a) PInf = Fin 0"
| "fdiv (Fin a) NInf = Fin 0"
| "fdiv PInf (Fin b) = inf_of_sign (0 \<le> b)"
| "fdiv NInf (Fin b) = inf_of_sign (b < 0)"
| "fdiv PInf PInf = NaN"
| "fdiv PInf NInf = NaN"
| "fdiv NInf PInf = NaN"
| "fdiv NInf NInf = NaN"

text \<open>
  A Python integer that meets a float is converted to binary64 first, rounded if it has
  more than 53 bits. (A period that reaches an operation is below the length of a series;
  the conversion of an integer of \<open>2^1024\<close> or more, which Python refuses, does not occur.)
\<close>

definition float_of_int :: "int \<Rightarrow> npfloat" where
  "float_of_int n = fl (of_int n)"

text \<open>\<open>summation/time_period\<close>: a numpy float divided by a Python integer.\<close>

definition np_div :: "npfloat \<Rightarrow> int \<Rightarrow> npfloat" where
  "np_div s p = fdiv s (float_of_int p)"

subsection \<open>Summation\<close>

text \<open>
  \<open>np.sum\<close> of a series ends in numpy's \<open>add.reduce\<close> over the float64 values, which
  adds in the order of numpy's pairwise summation: fewer than 8 values one after the other,
  up to 128 values in 8 running sums over the blocks of 8 that are combined pairwise and
  followed by the remaining values, and more than 128 values in two halves, the first a
  multiple of 8 long. The reduction starts from the identity \<open>0.0\<close>.
\<close>

text \<open>The 8 running sums \<open>r\<close> after \<open>blocks\<close> further blocks of 8 values of \<open>a\<close>.\<close>

fun lanes :: "nat \<Rightarrow> npfloat list \<Rightarrow> npfloat list \<Rightarrow> npfloat list" where
  "lanes 0 r a = r"
| "lanes (Suc blocks) r a = lanes blocks (map2 fadd r (take 8 a)) (drop 8 a)"

function pairwise_sum :: "npfloat list \<Rightarrow> npfloat" where
  "pairwise_sum a =
     (let n = length a
      in if n < 8 then foldl fadd (Fin 0) a
         else if n \<le> 128 then
           (let r = lanes (n div 8 - 1) (take 8 a) (drop 8 a);
                res = fadd (fadd (fadd (r ! 0) (r ! 1)) (fadd (r ! 2) (r ! 3)))
                        (fadd (fadd (r ! 4) (r ! 5)) (fadd (r ! 6) (r ! 7)))
            in foldl fadd res (drop (n - n mod 8) a))
         else
           (let n2 = n div 2 - (n div 2) mod 8
            in fadd (pairwise_sum (take n2 a)) (pairwise_sum (drop n2 a))))"
  by pat_completeness auto
termination
  by (relation "measure length") auto

definition np_sum :: "npfloat list \<Rightarrow> npfloat" where
  "np_sum a = fadd (Fin 0) (pairwise_sum a)"

section \<open>Python lists and pandas series\<close>

text \<open>\<open>list(range(0, k))\<close>: the integers below \<open>k\<close>, none when \<open>k \<le> 0\<close>.\<close>

definition list_range :: "int \<Rightarrow> npfloat list" where
  "list_range k = map (\<lambda>j. Fin (of_nat j)) [0 ..< nat k]"

text \<open>\<open>range(ii, ii + p)\<close> for a position \<open>ii \<ge> 0\<close>: empty when \<open>p \<le> 0\<close>.\<close>

definition py_range :: "nat \<Rightarrow> int \<Rightarrow> nat list" where
  "py_range ii p = [ii ..< nat (int ii + p)]"

text \<open>\<open>xs.iloc[positions]\<close>: a position outside the series raises.\<close>

definition iloc :: "'a list \<Rightarrow> nat list \<Rightarrow> error + 'a list" where
  "iloc xs positions =
     (if \<forall>i \<in> set positions. i < length xs then Inr (map (\<lambda>i. xs ! i) positions)
      else Inl IndexError)"

text \<open>
  \<open>xs[i]\<close> with an integer on a series indexed by timestamps is a lookup by position;
  a negative integer counts from the end.
\<close>

definition getitem :: "'a list \<Rightarrow> int \<Rightarrow> error + 'a" where
  "getitem xs i =
     (if 0 \<le> i \<and> i < int (length xs) then Inr (xs ! nat i)
      else if i < 0 \<and> - int (length xs) \<le> i then Inr (xs ! nat (int (length xs) + i))
      else Inl IndexError)"

text \<open>\<open>xs[k:]\<close>: a negative \<open>k\<close> keeps the last \<open>-k\<close> elements.\<close>

definition slice_from :: "'a list \<Rightarrow> int \<Rightarrow> 'a list" where
  "slice_from xs k =
     (if 0 \<le> k then drop (nat k) xs else drop (length xs - nat (- k)) xs)"

text \<open>
  A series is its index paired with its values. \<open>pd.Series(values, index = dates)\<close>
  raises when the two lengths differ. The \<open>name\<close> of the series (the label
  \<open>"p-SMA"\<close> or \<open>"p-EMA"\<close>) is not modelled.
\<close>

type_synonym ('d, 'v) series = "('d \<times> 'v) list"

definition pd_Series :: "'v list \<Rightarrow> 'd list \<Rightarrow> error + ('d, 'v) series" where
  "pd_Series vals dates =
     (if length vals = length dates then Inr (zip dates vals) else Inl ValueError)"

section \<open>Simple moving average\<close>

text \<open>The loop of \<open>get_SMA\<close>, from position \<open>ii\<close> on; \<open>SMA\<close> is the list it overwrites.\<close>

function SMA_loop :: "rat list \<Rightarrow> int \<Rightarrow> nat \<Rightarrow> npfloat list \<Rightarrow> error + npfloat list" where
  "SMA_loop close time_period ii SMA =
     (if ii < length SMA then
        (case iloc close (py_range ii time_period) of
           Inl e \<Rightarrow> Inl e
         | Inr prev_days \<Rightarrow>
             let summation = np_sum (map Fin prev_days);
                 avg = np_div summation time_period
             in SMA_loop close time_period (Suc ii) (SMA[ii := avg]))
      else Inr SMA)"
  by pat_completeness auto
termination
  by (relation "measure (\<lambda>(close, time_period, ii, SMA). length SMA - ii)") auto

definition get_SMA :: "('d, rat) series \<Rightarrow> int \<Rightarrow> error + ('d, npfloat) series" where
  "get_SMA close_data time_period =
     (let SMA = list_range (int (length close_data) - time_period)
      in case SMA_loop (map snd close_data) time_period 0 SMA of
           Inl e \<Rightarrow> Inl e
         | Inr SMA \<Rightarrow>
             let dates = slice_from (map fst close_data) time_period
             in pd_Series SMA dates)"

section \<open>Exponential moving average\<close>

function EMA_loop ::
  "rat list \<Rightarrow> int \<Rightarrow> npfloat \<Rightarrow> npfloat \<Rightarrow> nat \<Rightarrow> npfloat list \<Rightarrow> error + npfloat list" where
  "EMA_loop close time_period k initial_EMA ii EMA =
     (if ii < length EMA then
        (let index = time_period + int ii
         in case getitem close index of
              Inl e \<Rightarrow> Inl e
            | Inr close_temp \<Rightarrow>
                let EMA_temp =
                      (if ii = 0
                       then fadd (fmul (fsub (Fin close_temp) initial_EMA) k) initial_EMA
                       else fadd (fmul (fsub (Fin close_temp) (EMA ! (ii - 1))) k)
                              (EMA ! (ii - 1)))
                in EMA_loop close time_period k initial_EMA (Suc ii) (EMA[ii := EMA_temp]))
      else Inr EMA)"
  by pat_completeness auto
termination
  by (relation "measure (\<lambda>(close, time_period, k, initial_EMA, ii, EMA). length EMA - ii)") auto

definition get_EMA :: "('d, rat) series \<Rightarrow> int \<Rightarrow> error + ('d, npfloat) series" where
  "get_EMA close_data time_period =
     (let EMA = list_range (int (length close_data) - time_period)
      in case get_SMA close_data time_period of
           Inl e \<Rightarrow> Inl e
         | Inr sma \<Rightarrow>
            (case getitem (map snd sma) 0 of
               Inl e \<Rightarrow> Inl e
             | Inr initial_EMA \<Rightarrow>
                 if time_period + 1 = 0 then Inl ZeroDivisionError
                 else
                   let k = fdiv (Fin 2) (float_of_int (time_period + 1))
                   in case EMA_loop (map snd close_data) time_period k initial_EMA 0 EMA of
                        Inl e \<Rightarrow> Inl e
                      | Inr EMA \<Rightarrow>
                          let dates = slice_from (map fst close_data) time_period
                          in pd_Series EMA dates))"

text \<open>One step of the recurrence, as both branches of the loop body write it.\<close>

definition ema_step :: "npfloat \<Rightarrow> rat \<Rightarrow> npfloat \<Rightarrow> npfloat" where
  "ema_step k c prev = fadd (fmul (fsub (Fin c) prev) k) prev"


section \<open>Ingestion\<close>

text \<open>
  \<open>get_data\<close> lists a directory and reads every file with \<open>pd.read_csv\<close>. The directory
  is given as the list of its file names, in listing order, each with what reading it
  yields: \<open>pd.read_csv\<close> raises, or the table has no \<open>Date\<close> column (the lookup
  \<open>df["Date"]\<close> raises), or it is a table whose rows are the text of the \<open>Date\<close> cell
  and the remaining cells in column order (\<open>Open, High, Low, Close, Adj Close, Volume\<close>
  in the files of the script). The function never looks into the remaining cells, so their
  type is a parameter.
\<close>

datatype 'a csv = Unreadable | NoDateColumn | Table "(string \<times> 'a list) list"

text \<open>
  The frame built for one file: index entry and cells of every row. An index entry is a
  \<open>pd.Timestamp\<close> of a calendar day, represented by the number of that day (the
  proleptic Gregorian ordinal of Python's \<open>toordinal\<close>). \<open>pd.Timestamp\<close> itself is a
  parameter \<open>Timestamp\<close> of the model: \<open>None\<close> where it raises.
\<close>

type_synonym 'a frame = "(int \<times> 'a list) list"

text \<open>\<open>[pd.Timestamp(date) for date in df.Date]\<close>: the first date that does not parse raises.\<close>

fun Timestamps :: "(string \<Rightarrow> int option) \<Rightarrow> string list \<Rightarrow> error + int list" where
  "Timestamps Timestamp [] = Inr []"
| "Timestamps Timestamp (date # dates) =
     (case Timestamp date of
        None \<Rightarrow> Inl ValueError
      | Some t \<Rightarrow>
          (case Timestamps Timestamp dates of
             Inl e \<Rightarrow> Inl e
           | Inr ts \<Rightarrow> Inr (t # ts)))"

text \<open>
  The body of the loop of \<open>get_data\<close> up to the frame. The mask compares the text of
  the \<open>Date\<close> cells with the two date strings, character by character.
\<close>

definition read_frame ::
  "(string \<Rightarrow> int option) \<Rightarrow> 'a csv \<Rightarrow> string \<Rightarrow> string \<Rightarrow> error + 'a frame" where
  "read_frame Timestamp content start_date end_date =
     (case content of
        Unreadable \<Rightarrow> Inl ReadError
      | NoDateColumn \<Rightarrow> Inl KeyError
      | Table rows \<Rightarrow>
          let df = filter (\<lambda>row. start_date < fst row \<and> fst row \<le> end_date) rows
          in case Timestamps Timestamp (map fst df) of
               Inl e \<Rightarrow> Inl e
             | Inr dates \<Rightarrow> Inr (zip dates (map snd df)))"

text \<open>
  The dictionary \<open>data\<close> is an association list in insertion order; \<open>data.update\<close> of
  one key replaces the value of a key that is there and appends a new key otherwise. The
  key is \<open>file_name[:-4]\<close>: the name without its last four characters, the empty string
  for a shorter name.
\<close>

type_synonym 'a dict = "(string \<times> 'a frame) list"

fun get_data_loop ::
  "(string \<Rightarrow> int option) \<Rightarrow> (string \<times> 'a csv) list \<Rightarrow> string \<Rightarrow> string \<Rightarrow> 'a dict
     \<Rightarrow> error + 'a dict" where
  "get_data_loop Timestamp [] start_date end_date data = Inr data"
| "get_data_loop Timestamp ((file_name, content) # file_names) start_date end_date data =
     (case read_frame Timestamp content start_date end_date of
        Inl e \<Rightarrow> Inl e
      | Inr df \<Rightarrow>
          get_data_loop Timestamp file_names start_date end_date
            (AList.update (take (length file_name - 4) file_name) df data))"

definition get_data ::
  "(string \<Rightarrow> int option) \<Rightarrow> (string \<times> 'a csv) list \<Rightarrow> string \<Rightarrow> string \<Rightarrow> error + 'a dict" where
  "get_data Timestamp file_names start_date end_date =
     get_data_loop Timestamp file_names start_date end_date []"

subsection \<open>Timestamps of dates\<close>

text \<open>
  \<open>iso_Timestamp\<close> is \<open>pd.Timestamp\<close> on a date written year-month-day with a year of
  four digits and a month and a day of one or two digits each (the files carry
  \<open>2015-05-18\<close>; the script itself writes \<open>2017-4-01\<close>). It gives the day number of the
  date as Python's \<open>datetime\<close> computes \<open>toordinal\<close>. A date that does not exist raises,
  and so does a date outside the days that a timestamp holds, \<open>1677-09-22\<close> to
  \<open>2262-04-11\<close>. Text of any other form is not modelled: it is treated as raising.
\<close>

definition digit_val :: "char \<Rightarrow> nat option" where
  "digit_val c =
     (if CHR ''0'' \<le> c \<and> c \<le> CHR ''9'' then Some (of_char c - 48) else None)"

fun decimal :: "nat \<Rightarrow> string \<Rightarrow> nat option" where
  "decimal acc [] = Some acc"
| "decimal acc (c # cs) =
     (case digit_val c of None \<Rightarrow> None | Some d \<Rightarrow> decimal (10 * acc + d) cs)"

definition is_leap :: "nat \<Rightarrow> bool" where
  "is_leap year = (year mod 4 = 0 \<and> (year mod 100 \<noteq> 0 \<or> year mod 400 = 0))"

definition days_before_year :: "nat \<Rightarrow> nat" where
  "days_before_year year =
     (let y = year - 1 in y * 365 + y div 4 - y div 100 + y div 400)"

definition days_in_month :: "nat \<Rightarrow> nat \<Rightarrow> nat" where
  "days_in_month year month =
     (if month = 2 \<and> is_leap year then 29
      else [0, 31, 28, 31, 30, 31, 30, 31, 31, 30, 31, 30, 31] ! month)"

definition days_before_month :: "nat \<Rightarrow> nat \<Rightarrow> nat" where
  "days_before_month year month = sum_list (map (days_in_month year) [1 ..< month])"

definition ymd2ord :: "nat \<Rightarrow> nat \<Rightarrow> nat \<Rightarrow> nat" where
  "ymd2ord year month day = days_before_year year + days_before_month year month + day"

definition ymd_fields :: "string \<Rightarrow> (string \<times> string \<times> string) option" where
  "ymd_fields s =
     (if length s = 10 \<and> s ! 4 = CHR ''-'' \<and> s ! 7 = CHR ''-''
        then Some (take 4 s, take 2 (drop 5 s), drop 8 s)
      else if length s = 9 \<and> s ! 4 = CHR ''-'' \<and> s ! 6 = CHR ''-''
        then Some (take 4 s, take 1 (drop 5 s), drop 7 s)
      else if length s = 9 \<and> s ! 4 = CHR ''-'' \<and> s ! 7 = CHR ''-''
        then Some (take 4 s, take 2 (drop 5 s), drop 8 s)
      else if length s = 8 \<and> s ! 4 = CHR ''-'' \<and> s ! 6 = CHR ''-''
        then Some (take 4 s, take 1 (drop 5 s), drop 7 s)
      else None)"

definition iso_Timestamp :: "string \<Rightarrow> int option" where
  "iso_Timestamp s =
     (case ymd_fields s of
        None \<Rightarrow> None
      | Some (ys, ms, ds) \<Rightarrow>
          (case (decimal 0 ys, decimal 0 ms, decimal 0 ds) of
             (Some year, Some month, Some day) \<Rightarrow>
               if 1 \<le> year \<and> 1 \<le> month \<and> month \<le> 12 \<and> 1 \<le> day
                  \<and> day \<le> days_in_month year month
                  \<and> 612412 \<le> ymd2ord year month day \<and> ymd2ord year month day \<le> 825914
               then Some (int (ymd2ord year month day))
               else None
           | _ \<Rightarrow> None))"

text \<open>A date written in full, \<open>YYYY-MM-DD\<close>, that \<open>pd.Timestamp\<close> accepts.\<close>

definition iso_date :: "string \<Rightarrow> bool" where
  "iso_date s = (length s = 10 \<and> iso_Timestamp s \<noteq> None)"

text \<open>The day number of such a date.\<close>

definition day_of :: "string \<Rightarrow> int" where
  "day_of s = the (iso_Timestamp s)"

section \<open>Candlestick projection\<close>

text \<open>
  \<open>mdates.date2num\<close> turns a timestamp into the number of days since the epoch of the
  plotting library; the epoch (a day number) is a parameter.
\<close>

definition date2num :: "int \<Rightarrow> int \<Rightarrow> rat" where
  "date2num epoch t = of_int (t - epoch)"

text \<open>
  The frame \<open>ADI_candle\<close> of the script: the first four columns of the data
  (\<open>iloc[:, 0:4]\<close>), with the day numbers of the index in front. Both frames carry the
  index of the data, so the concatenation pairs them row by row.
\<close>

definition ADI_candle :: "int \<Rightarrow> 'a frame \<Rightarrow> (rat \<times> 'a list) list" where
  "ADI_candle epoch ADI_data =
     (let candle = map (\<lambda>row. take 4 (snd row)) ADI_data;
          dates = map (date2num epoch) (map fst ADI_data)
      in zip dates candle)"

section \<open>Properties\<close>

declare SMA_loop.simps [simp del] EMA_loop.simps [simp del] pairwise_sum.simps [simp del]

lemma iloc_py_range:
  "p \<le> 0 \<or> int ii + p \<le> int (length xs) \<Longrightarrow>
   iloc xs (py_range ii p) = Inr (map (\<lambda>j. xs ! j) (py_range ii p))"
  by (auto simp: iloc_def py_range_def)

lemma SMA_loop_result:
  assumes "\<forall>i. ii \<le> i \<and> i < length SMA \<longrightarrow> p \<le> 0 \<or> int i + p \<le> int (length close)"
  shows "SMA_loop close p ii SMA =
    Inr (map (\<lambda>i. if i < ii then SMA ! i
                  else np_div (np_sum (map Fin (map (\<lambda>j. close ! j) (py_range i p)))) p)
           [0 ..< length SMA])"
  using assms
proof (induction close p ii SMA rule: SMA_loop.induct)
  case (1 close p ii SMA)
  show ?case
  proof (cases "ii < length SMA")
    case True
    let ?avg = "np_div (np_sum (map Fin (map (\<lambda>j. close ! j) (py_range ii p)))) p"
    have il: "iloc close (py_range ii p) = Inr (map (\<lambda>j. close ! j) (py_range ii p))"
      using "1.prems" True by (intro iloc_py_range) auto
    have IH: "SMA_loop close p (Suc ii) (SMA[ii := ?avg]) =
      Inr (map (\<lambda>i. if i < Suc ii then SMA[ii := ?avg] ! i
                    else np_div (np_sum (map Fin (map (\<lambda>j. close ! j) (py_range i p)))) p)
             [0 ..< length SMA])"
      using "1.IH"[OF True il refl refl] "1.prems" by simp
    have "SMA_loop close p ii SMA = SMA_loop close p (Suc ii) (SMA[ii := ?avg])"
      using True il by (subst SMA_loop.simps) simp
    also note IH
    also have "map (\<lambda>i. if i < Suc ii then SMA[ii := ?avg] ! i
                    else np_div (np_sum (map Fin (map (\<lambda>j. close ! j) (py_range i p)))) p)
             [0 ..< length SMA] =
        map (\<lambda>i. if i < ii then SMA ! i
                  else np_div (np_sum (map Fin (map (\<lambda>j. close ! j) (py_range i p)))) p)
           [0 ..< length SMA]"
      using True by (auto simp: nth_list_update less_Suc_eq)
    finally show ?thesis by simp
  next
    case False
    have "map (\<lambda>i. if i < ii then SMA ! i
                  else np_div (np_sum (map Fin (map (\<lambda>j. close ! j) (py_range i p)))) p)
           [0 ..< length SMA] = map (\<lambda>i. SMA ! i) [0 ..< length SMA]"
      using False by auto
    then show ?thesis using False by (subst SMA_loop.simps) (simp add: map_nth)
  qed
qed

lemma get_SMA_nonneg:
  assumes "0 \<le> p"
  shows "get_SMA S p =
    Inr (map (\<lambda>i. (fst (S ! (nat p + i)),
                   np_div (np_sum (map (\<lambda>j. Fin (snd (S ! j))) [i ..< i + nat p])) p))
           [0 ..< length S - nat p])"
proof -
  let ?n = "length S"
  let ?len = "length S - nat p"
  have len: "length (list_range (int ?n - p)) = ?len"
    using assms by (simp add: list_range_def nat_diff_distrib')
  have rng: "\<forall>i. 0 \<le> i \<and> i < length (list_range (int ?n - p)) \<longrightarrow>
               p \<le> 0 \<or> int i + p \<le> int (length (map snd S))"
    using assms len by auto
  have loop: "SMA_loop (map snd S) p 0 (list_range (int ?n - p)) =
      Inr (map (\<lambda>i. np_div (np_sum (map Fin (map (\<lambda>j. map snd S ! j) (py_range i p)))) p) [0 ..< ?len])"
    using SMA_loop_result[OF rng] len by simp
  have win: "\<And>i. i < ?len \<Longrightarrow>
      map Fin (map (\<lambda>j. map snd S ! j) (py_range i p)) = map (\<lambda>j. Fin (snd (S ! j))) [i ..< i + nat p]"
    using assms by (auto simp: py_range_def nat_add_distrib)
  have vals: "map (\<lambda>i. np_div (np_sum (map Fin (map (\<lambda>j. map snd S ! j) (py_range i p)))) p) [0 ..< ?len]
      = map (\<lambda>i. np_div (np_sum (map (\<lambda>j. Fin (snd (S ! j))) [i ..< i + nat p])) p) [0 ..< ?len]"
    using win by simp
  have dates: "slice_from (map fst S) p = map (\<lambda>i. fst (S ! (nat p + i))) [0 ..< ?len]"
    using assms by (auto simp: slice_from_def intro!: nth_equalityI)
  show ?thesis
    unfolding get_SMA_def Let_def loop vals dates
    by (simp add: pd_Series_def zip_map_map zip_same_conv_map)
qed

lemma get_SMA_neg:
  assumes "p < 0"
  shows "get_SMA S p = Inl ValueError"
proof -
  have rng: "\<forall>i. 0 \<le> i \<and> i < length (list_range (int (length S) - p)) \<longrightarrow>
               p \<le> 0 \<or> int i + p \<le> int (length (map snd S))"
    using assms by auto
  have len: "length (list_range (int (length S) - p)) = length S + nat (- p)"
    using assms by (simp add: list_range_def)
  have dl: "length (slice_from (map fst S) p) \<le> length S"
    by (simp add: slice_from_def)
  have "length S + nat (- p) \<noteq> length (slice_from (map fst S) p)"
    using dl assms by linarith
  then show ?thesis
    unfolding get_SMA_def Let_def SMA_loop_result[OF rng]
    by (simp add: pd_Series_def len)
qed

lemma getitem_nonneg:
  "0 \<le> i \<Longrightarrow> i < int (length xs) \<Longrightarrow> getitem xs i = Inr (xs ! nat i)"
  by (simp add: getitem_def)

lemma getitem_empty: "getitem [] i = Inl IndexError"
  by (simp add: getitem_def)

lemma ema_step_NaN: "ema_step k c NaN = NaN"
  by (simp add: ema_step_def fsub_def)

lemma EMA_loop_result:
  assumes "0 \<le> p" and "\<forall>i. ii \<le> i \<and> i < length EMA \<longrightarrow> p + int i < int (length close)"
  shows "\<exists>R. EMA_loop close p k seed ii EMA = Inr R \<and> length R = length EMA \<and>
           (\<forall>i < ii. i < length EMA \<longrightarrow> R ! i = EMA ! i) \<and>
           (\<forall>i. ii \<le> i \<and> i < length EMA \<longrightarrow>
              R ! i = ema_step k (close ! (nat p + i)) (if i = 0 then seed else R ! (i - 1)))"
  using assms
proof (induction close p k seed ii EMA rule: EMA_loop.induct)
  case (1 close p k seed ii EMA)
  show ?case
  proof (cases "ii < length EMA")
    case True
    let ?c = "close ! (nat p + ii)"
    let ?v = "ema_step k ?c (if ii = 0 then seed else EMA ! (ii - 1))"
    have gi: "getitem close (p + int ii) = Inr ?c"
      using "1.prems" True by (simp add: getitem_nonneg nat_add_distrib)
    have unf: "EMA_loop close p k seed ii EMA = EMA_loop close p k seed (Suc ii) (EMA[ii := ?v])"
      using True gi by (subst EMA_loop.simps) (simp add: ema_step_def Let_def)
    have "\<exists>R. EMA_loop close p k seed (Suc ii) (EMA[ii := ?v]) = Inr R \<and>
            length R = length (EMA[ii := ?v]) \<and>
            (\<forall>i < Suc ii. i < length (EMA[ii := ?v]) \<longrightarrow> R ! i = EMA[ii := ?v] ! i) \<and>
            (\<forall>i. Suc ii \<le> i \<and> i < length (EMA[ii := ?v]) \<longrightarrow>
               R ! i = ema_step k (close ! (nat p + i)) (if i = 0 then seed else R ! (i - 1)))"
    proof (rule "1.IH"[OF True refl gi])
      show "?v = (if ii = 0 then fadd (fmul (fsub (Fin ?c) seed) k) seed
                 else fadd (fmul (fsub (Fin ?c) (EMA ! (ii - 1))) k) (EMA ! (ii - 1)))"
        by (simp add: ema_step_def)
      show "0 \<le> p" by fact
      show "\<forall>i. Suc ii \<le> i \<and> i < length (EMA[ii := ?v]) \<longrightarrow> p + int i < int (length close)"
        using "1.prems" by simp
    qed
    then obtain R where R: "EMA_loop close p k seed (Suc ii) (EMA[ii := ?v]) = Inr R"
      "length R = length EMA"
      "\<And>i. i < Suc ii \<Longrightarrow> i < length EMA \<Longrightarrow> R ! i = EMA[ii := ?v] ! i"
      "\<And>i. Suc ii \<le> i \<Longrightarrow> i < length EMA \<Longrightarrow>
          R ! i = ema_step k (close ! (nat p + i)) (if i = 0 then seed else R ! (i - 1))"
      by auto
    have old: "\<And>i. i < ii \<Longrightarrow> i < length EMA \<Longrightarrow> R ! i = EMA ! i"
      using R(3) by (simp add: nth_list_update)
    have at: "R ! ii = ?v" using R(3)[of ii] True by simp
    have prev: "ii \<noteq> 0 \<Longrightarrow> R ! (ii - 1) = EMA ! (ii - 1)"
      using old[of "ii - 1"] True by simp
    have here: "R ! ii = ema_step k ?c (if ii = 0 then seed else R ! (ii - 1))"
      using at prev by simp
    have rec: "\<And>i. ii \<le> i \<Longrightarrow> i < length EMA \<Longrightarrow>
          R ! i = ema_step k (close ! (nat p + i)) (if i = 0 then seed else R ! (i - 1))"
    proof -
      fix i assume "ii \<le> i" "i < length EMA"
      then consider "i = ii" | "Suc ii \<le> i" by linarith
      then show "R ! i = ema_step k (close ! (nat p + i)) (if i = 0 then seed else R ! (i - 1))"
        using here R(4) \<open>i < length EMA\<close> by cases auto
    qed
    show ?thesis unfolding unf using R(1,2) old rec by auto
  next
    case False
    have "EMA_loop close p k seed ii EMA = Inr EMA"
      using False by (subst EMA_loop.simps) simp
    moreover have "\<And>i. ii \<le> i \<Longrightarrow> i < length EMA \<Longrightarrow> False"
      using False by linarith
    ultimately show ?thesis by blast
  qed
qed

lemma get_EMA_steps:
  assumes "0 \<le> p" and "p < int (length S)"
  shows "\<exists>E sma. get_SMA S p = Inr sma \<and> sma \<noteq> [] \<and> get_EMA S p = Inr E \<and>
           length E = length S - nat p \<and> map fst E = drop (nat p) (map fst S) \<and>
           (\<forall>i < length E. snd (E ! i) =
              ema_step (fdiv (Fin 2) (float_of_int (p + 1))) (snd (S ! (nat p + i)))
                (if i = 0 then snd (hd sma) else snd (E ! (i - 1))))"
proof -
  let ?len = "length S - nat p"
  let ?k = "fdiv (Fin 2) (float_of_int (p + 1))"
  obtain sma where sma: "get_SMA S p = Inr sma" "length sma = ?len"
    using get_SMA_nonneg[OF assms(1), of S] by simp
  have pos: "0 < ?len" using assms by linarith
  then have ne: "sma \<noteq> []" using sma(2) by auto
  have seed: "getitem (map snd sma) 0 = Inr (snd (hd sma))"
    using ne by (cases sma) (simp_all add: getitem_def)
  have len0: "length (list_range (int (length S) - p)) = ?len"
    using assms by (simp add: list_range_def nat_diff_distrib')
  have rng: "\<forall>i. 0 \<le> i \<and> i < length (list_range (int (length S) - p)) \<longrightarrow>
               p + int i < int (length (map snd S))"
    using assms len0 by auto
  obtain R where R: "EMA_loop (map snd S) p ?k (snd (hd sma)) 0 (list_range (int (length S) - p)) = Inr R"
      "length R = ?len"
      "\<And>i. i < ?len \<Longrightarrow> R ! i = ema_step ?k (map snd S ! (nat p + i))
                                  (if i = 0 then snd (hd sma) else R ! (i - 1))"
    using EMA_loop_result[OF assms(1) rng, of ?k "snd (hd sma)"] len0 by auto
  let ?dates = "drop (nat p) (map fst S)"
  let ?E = "zip ?dates R"
  have dl: "length ?dates = ?len" by simp
  have sl: "slice_from (map fst S) p = ?dates" using assms by (simp add: slice_from_def)
  have p1: "p + 1 \<noteq> 0" using assms by linarith
  have E: "get_EMA S p = Inr ?E"
    unfolding get_EMA_def Let_def sma sl using seed p1 R(1,2) dl
    by (simp add: pd_Series_def)
  have lenE: "length ?E = ?len" using R(2) by simp
  have fstE: "map fst ?E = ?dates" using R(2) dl by (simp add: map_fst_zip)
  have sndE: "\<And>i. i < ?len \<Longrightarrow> snd (?E ! i) = R ! i" using R(2) by simp
  have step: "\<forall>i < length ?E. snd (?E ! i) =
              ema_step ?k (snd (S ! (nat p + i))) (if i = 0 then snd (hd sma) else snd (?E ! (i - 1)))"
  proof (intro allI impI)
    fix i assume "i < length ?E"
    then have i: "i < ?len" using lenE by simp
    then have "nat p + i < length S" by linarith
    then have c: "map snd S ! (nat p + i) = snd (S ! (nat p + i))" by simp
    have pr: "i \<noteq> 0 \<Longrightarrow> snd (?E ! (i - 1)) = R ! (i - 1)" using sndE[of "i - 1"] i by simp
    show "snd (?E ! i) =
              ema_step ?k (snd (S ! (nat p + i))) (if i = 0 then snd (hd sma) else snd (?E ! (i - 1)))"
      using R(3)[OF i] sndE[OF i] c pr by (cases "i = 0") simp_all
  qed
  show ?thesis using sma(1) ne E lenE fstE step by blast
qed


subsection \<open>Evaluating the rounding\<close>

lemma pow2_1024: "pow2 1024 = 179769313486231590772930519078902473361797697894230657273430081157732675805500963132708477322407536021120113879871393357658789768814416622492847430639474124377767893424865485276302219601246094119453082952085005768838150682342462881473913110540827237163350510684586298239947245938479716304835356329624224137216"
  by (simp add: pow2_def)

lemma floor_numeral_div: "\<lfloor>numeral a / numeral b :: rat\<rfloor> = numeral a div numeral b"
  using floor_divide_of_int_eq[of "numeral a" "numeral b", where ?'a = rat] by simp

lemmas fl_eval = fl_def Let_def round_half_even_def floor_numeral_div pow2_1024 pow2_def

lemma fl_zero: "fl 0 = Fin 0"
  by (simp add: fl_def)

lemma fl_ilog2_0: "ilog2 (1) = 0"
  by code_simp

lemma fl_0: "fl (1) = Fin (1)"
  by (simp add: fl_eval fl_ilog2_0)

lemma fl_ilog2_1: "ilog2 (3) = 1"
  by code_simp

lemma fl_1: "fl (3) = Fin (3)"
  by (simp add: fl_eval fl_ilog2_1)

lemma fl_ilog2_2: "ilog2 (6) = 2"
  by code_simp

lemma fl_2: "fl (6) = Fin (6)"
  by (simp add: fl_eval fl_ilog2_2)

lemma fl_ilog2_3: "ilog2 (2) = 1"
  by code_simp

lemma fl_3: "fl (2) = Fin (2)"
  by (simp add: fl_eval fl_ilog2_3)

lemma fl_ilog2_4: "ilog2 (5) = 2"
  by code_simp

lemma fl_4: "fl (5) = Fin (5)"
  by (simp add: fl_eval fl_ilog2_4)

lemma fl_ilog2_5: "ilog2 (9) = 3"
  by code_simp

lemma fl_5: "fl (9) = Fin (9)"
  by (simp add: fl_eval fl_ilog2_5)

lemma fl_ilog2_6: "ilog2 (4) = 2"
  by code_simp

lemma fl_6: "fl (4) = Fin (4)"
  by (simp add: fl_eval fl_ilog2_6)

lemma fl_ilog2_7: "ilog2 (1 / 2) = - 1"
  by code_simp

lemma fl_7: "fl (1 / 2) = Fin (1 / 2)"
  by (simp add: fl_eval fl_ilog2_7)

lemma fl_ilog2_8: "ilog2 (3602879701896397 / 36028797018963968) = - 4"
  by code_simp

lemma fl_8: "fl (3602879701896397 / 36028797018963968) = Fin (3602879701896397 / 36028797018963968)"
  by (simp add: fl_eval fl_ilog2_8)

lemma fl_ilog2_9: "ilog2 (3602879701896397 / 18014398509481984) = - 3"
  by code_simp

lemma fl_9: "fl (3602879701896397 / 18014398509481984) = Fin (3602879701896397 / 18014398509481984)"
  by (simp add: fl_eval fl_ilog2_9)

lemma fl_ilog2_10: "ilog2 (10808639105689191 / 36028797018963968) = - 2"
  by code_simp

lemma fl_10: "fl (10808639105689191 / 36028797018963968) = Fin (1351079888211149 / 4503599627370496)"
  by (simp add: fl_eval fl_ilog2_10)

lemma fl_ilog2_11: "ilog2 (1351079888211149 / 4503599627370496) = - 2"
  by code_simp

lemma fl_11: "fl (1351079888211149 / 4503599627370496) = Fin (1351079888211149 / 4503599627370496)"
  by (simp add: fl_eval fl_ilog2_11)

lemma fl_ilog2_12: "ilog2 (1351079888211149 / 13510798882111488) = - 4"
  by code_simp

lemma fl_12: "fl (1351079888211149 / 13510798882111488) = Fin (7205759403792795 / 72057594037927936)"
  by (simp add: fl_eval fl_ilog2_12)

lemma fl_ilog2_13: "ilog2 (3 / 2) = 0"
  by code_simp

lemma fl_13: "fl (3 / 2) = Fin (3 / 2)"
  by (simp add: fl_eval fl_ilog2_13)

lemma fl_ilog2_14: "ilog2 (2 / 3) = - 1"
  by code_simp

lemma fl_14: "fl (2 / 3) = Fin (6004799503160661 / 9007199254740992)"
  by (simp add: fl_eval fl_ilog2_14)

lemma fl_ilog2_15: "ilog2 (5 / 2) = 1"
  by code_simp

lemma fl_15: "fl (5 / 2) = Fin (5 / 2)"
  by (simp add: fl_eval fl_ilog2_15)

lemma fl_ilog2_16: "ilog2 (30023997515803305 / 18014398509481984) = 0"
  by code_simp

lemma fl_16: "fl (30023997515803305 / 18014398509481984) = Fin (3752999689475413 / 2251799813685248)"
  by (simp add: fl_eval fl_ilog2_16)

lemma fl_ilog2_17: "ilog2 (7130699410003285 / 2251799813685248) = 1"
  by code_simp

lemma fl_17: "fl (7130699410003285 / 2251799813685248) = Fin (7130699410003285 / 2251799813685248)"
  by (simp add: fl_eval fl_ilog2_17)

lemma fl_ilog2_18: "ilog2 (1 / 10) = - 4"
  by code_simp

lemma fl_18: "fl (1 / 10) = Fin (3602879701896397 / 36028797018963968)"
  by (simp add: fl_eval fl_ilog2_18)

lemmas fl_values = fl_zero fl_0 fl_1 fl_2 fl_3 fl_4 fl_5 fl_6 fl_7 fl_8 fl_9 fl_10 fl_11 fl_12 fl_13 fl_14 fl_15 fl_16 fl_17 fl_18

lemmas float_eval = np_sum_def pairwise_sum.simps np_div_def float_of_int_def fsub_def fl_values

lemma np_sum_Nil: "np_sum [] = Fin 0"
  by (simp add: np_sum_def pairwise_sum.simps fl_zero)

lemma np_div_zero_zero: "np_div (Fin 0) 0 = NaN"
  by (simp add: np_div_def float_of_int_def fl_zero)

subsection \<open>Moving averages\<close>

lemma window_positions: "map f [i ..< i + m] = map (\<lambda>j. f (i + j)) [0 ..< m]"
proof -
  have "[i ..< i + m] = map (\<lambda>j. j + i) [0 ..< m]" by (simp add: map_add_upt add.commute)
  then show ?thesis by (simp add: comp_def add.commute)
qed

text \<open>
  C1 (as the code has it): for a period \<open>p\<close> with \<open>1 \<le> p < n\<close> the simple moving
  average of a close series of length \<open>n\<close> has \<open>n - p\<close> entries; entry \<open>i\<close> carries the
  date at source position \<open>p + i\<close> and the mean of the \<open>p\<close> closes at source positions
  \<open>i, \<dots>, i + p - 1\<close> as float64 computes it: their float64 sum divided by \<open>p\<close> in
  float64. For \<open>p \<ge> n\<close> the result is the empty series.
\<close>

theorem get_SMA_lagged_window_float_mean:
  "(1 \<le> p \<and> p < int (length S) \<longrightarrow>
      (\<exists>R. get_SMA S p = Inr R \<and> length R = length S - nat p \<and>
           (\<forall>i < length R.
              fst (R ! i) = fst (S ! (nat p + i)) \<and>
              snd (R ! i) = np_div (np_sum (map (\<lambda>j. Fin (snd (S ! (i + j)))) [0 ..< nat p])) p))) \<and>
   (int (length S) \<le> p \<longrightarrow> get_SMA S p = Inr [])"
proof (intro conjI impI)
  assume a: "1 \<le> p \<and> p < int (length S)"
  then have p0: "0 \<le> p" by auto
  show "\<exists>R. get_SMA S p = Inr R \<and> length R = length S - nat p \<and>
           (\<forall>i < length R.
              fst (R ! i) = fst (S ! (nat p + i)) \<and>
              snd (R ! i) = np_div (np_sum (map (\<lambda>j. Fin (snd (S ! (i + j)))) [0 ..< nat p])) p)"
    unfolding get_SMA_nonneg[OF p0] by (simp add: window_positions)
next
  assume "int (length S) \<le> p"
  then have "0 \<le> p" "length S - nat p = 0" by auto
  then show "get_SMA S p = Inr []" using get_SMA_nonneg[of p S] by simp
qed

theorem get_SMA_lagged_window_float_mean_witness:
  "get_SMA [(10::nat, 1), (11, 2), (12, 3), (13, 4), (14, 5)] 3 = Inr [(13, Fin 2), (14, Fin 3)] \<and>
   get_SMA [(10::nat, 1), (11, 2)] 2 = Inr []"
proof -
  let ?S = "[(10::nat, 1::rat), (11, 2), (12, 3), (13, 4), (14, 5)]"
  from get_SMA_lagged_window_float_mean[of 3 ?S]
  obtain R where R: "get_SMA ?S 3 = Inr R" "length R = 2"
    "\<forall>i<length R. fst (R ! i) = fst (?S ! (nat 3 + i)) \<and>
        snd (R ! i) = np_div (np_sum (map (\<lambda>j. Fin (snd (?S ! (i + j)))) [0 ..< nat 3])) 3"
    by auto
  have "fst (R ! 0) = fst (?S ! (nat 3 + 0)) \<and>
        snd (R ! 0) = np_div (np_sum (map (\<lambda>j. Fin (snd (?S ! (0 + j)))) [0 ..< nat 3])) 3"
       "fst (R ! 1) = fst (?S ! (nat 3 + 1)) \<and>
        snd (R ! 1) = np_div (np_sum (map (\<lambda>j. Fin (snd (?S ! (1 + j)))) [0 ..< nat 3])) 3"
    using R(2,3) by simp_all
  then have "R ! 0 = (13, Fin 2)" "R ! 1 = (14, Fin 3)"
    by (simp_all add: prod_eq_iff eval_nat_numeral float_eval)
  then have "R = [(13, Fin 2), (14, Fin 3)]"
    using R(2) by (auto simp: list_eq_iff_nth_eq less_Suc_eq eval_nat_numeral)
  moreover have "get_SMA [(10::nat, 1), (11, 2)] 2 = Inr []"
    using get_SMA_lagged_window_float_mean[of 2 "[(10::nat, 1), (11, 2)]"] by simp
  ultimately show ?thesis using R(1) by simp
qed

lemma SMA_of_tenths:
  "get_SMA [(1::nat, 3602879701896397 / 36028797018963968),
            (2, 3602879701896397 / 36028797018963968),
            (3, 3602879701896397 / 36028797018963968),
            (4, 3602879701896397 / 36028797018963968)] 3
   = Inr [(4, Fin (7205759403792795 / 72057594037927936))]"
  unfolding get_SMA_nonneg[of 3, simplified]
  by (simp add: eval_nat_numeral float_eval)

theorem SMA_is_not_the_exact_mean_counterexample:
  "fl (1 / 10) = Fin (3602879701896397 / 36028797018963968) \<and>
   get_SMA [(1::nat, 3602879701896397 / 36028797018963968),
            (2, 3602879701896397 / 36028797018963968),
            (3, 3602879701896397 / 36028797018963968),
            (4, 3602879701896397 / 36028797018963968)] 3
   = Inr [(4, Fin (7205759403792795 / 72057594037927936))] \<and>
   Fin (7205759403792795 / 72057594037927936) \<noteq>
   Fin ((3602879701896397 / 36028797018963968 + 3602879701896397 / 36028797018963968
         + 3602879701896397 / 36028797018963968) / 3)"
  using SMA_of_tenths by (simp add: fl_values)

text \<open>
  C2 (as the code has it): for a period \<open>p\<close> with \<open>1 \<le> p < n\<close> the exponential
  moving average has \<open>n - p\<close> entries dated by the source dates from position \<open>p\<close> on.
  With \<open>k\<close> the float64 quotient of \<open>2.0\<close> by \<open>p + 1\<close> and the seed the first value of
  the simple moving average, entry \<open>0\<close> is \<open>(close[p] - seed) * k + seed\<close> and entry
  \<open>i \<ge> 1\<close> is \<open>(close[p + i] - EMA[i - 1]) * k + EMA[i - 1]\<close> on the raw closes, each of
  the three operations a float64 operation.
\<close>

theorem get_EMA_float_recurrence:
  assumes "1 \<le> p" and "p < int (length S)"
  shows "\<exists>E sma.
           get_SMA S p = Inr sma \<and> sma \<noteq> [] \<and>
           get_EMA S p = Inr E \<and> length E = length S - nat p \<and>
           map fst E = drop (nat p) (map fst S) \<and>
           snd (E ! 0) =
             fadd (fmul (fsub (Fin (snd (S ! nat p))) (snd (hd sma)))
                     (fdiv (Fin 2) (float_of_int (p + 1))))
               (snd (hd sma)) \<and>
           (\<forall>i. 1 \<le> i \<and> i < length E \<longrightarrow>
              snd (E ! i) =
                fadd (fmul (fsub (Fin (snd (S ! (nat p + i)))) (snd (E ! (i - 1))))
                        (fdiv (Fin 2) (float_of_int (p + 1))))
                  (snd (E ! (i - 1))))"
proof -
  let ?k = "fdiv (Fin 2) (float_of_int (p + 1))"
  have p0: "0 \<le> p" using assms by simp
  obtain E sma where sma: "get_SMA S p = Inr sma" "sma \<noteq> []"
    and E: "get_EMA S p = Inr E" "length E = length S - nat p"
           "map fst E = drop (nat p) (map fst S)"
    and step: "\<forall>i < length E. snd (E ! i) =
                 ema_step ?k (snd (S ! (nat p + i))) (if i = 0 then snd (hd sma) else snd (E ! (i - 1)))"
    using get_EMA_steps[OF p0 assms(2)] by blast
  have "0 < length E" using E(2) assms by linarith
  then have "snd (E ! 0) = ema_step ?k (snd (S ! (nat p + 0))) (snd (hd sma))"
    using step[rule_format, of 0] by simp
  then have e0: "snd (E ! 0) = fadd (fmul (fsub (Fin (snd (S ! nat p))) (snd (hd sma))) ?k) (snd (hd sma))"
    by (simp add: ema_step_def)
  have en: "\<forall>i. 1 \<le> i \<and> i < length E \<longrightarrow>
              snd (E ! i) =
                fadd (fmul (fsub (Fin (snd (S ! (nat p + i)))) (snd (E ! (i - 1)))) ?k)
                  (snd (E ! (i - 1)))"
  proof (intro allI impI)
    fix i assume i: "1 \<le> i \<and> i < length E"
    then have "i < length E" "i \<noteq> 0" by auto
    then have "snd (E ! i) = ema_step ?k (snd (S ! (nat p + i))) (snd (E ! (i - 1)))"
      using step[rule_format, of i] by simp
    then show "snd (E ! i) =
                fadd (fmul (fsub (Fin (snd (S ! (nat p + i)))) (snd (E ! (i - 1)))) ?k)
                  (snd (E ! (i - 1)))"
      by (simp add: ema_step_def)
  qed
  from sma E e0 en show ?thesis by blast
qed

theorem get_EMA_float_recurrence_witness:
  "get_EMA [(10::nat, 1), (11, 2), (12, 3), (13, 4), (14, 5)] 3 = Inr [(13, Fin 3), (14, Fin 4)]"
proof -
  let ?S = "[(10::nat, 1::rat), (11, 2), (12, 3), (13, 4), (14, 5)]"
  let ?k = "fdiv (Fin 2) (float_of_int (3 + 1))"
  have h: "(1::int) \<le> 3" "(3::int) < int (length ?S)" by simp_all
  from get_EMA_float_recurrence[OF h]
  obtain E sma where
    sma: "get_SMA ?S 3 = Inr sma" and
    E0: "get_EMA ?S 3 = Inr E" "length E = length ?S - nat 3"
       "map fst E = drop (nat 3) (map fst ?S)" and
    e0: "snd (E ! 0) = fadd (fmul (fsub (Fin (snd (?S ! nat 3))) (snd (hd sma))) ?k) (snd (hd sma))" and
    en: "\<forall>i. 1 \<le> i \<and> i < length E \<longrightarrow>
              snd (E ! i) =
                fadd (fmul (fsub (Fin (snd (?S ! (nat 3 + i)))) (snd (E ! (i - 1)))) ?k)
                  (snd (E ! (i - 1)))"
    by blast
  have E: "length E = 2" "map fst E = [13, 14]" using E0 by simp_all
  have "get_SMA ?S 3 = Inr [(13, Fin 2), (14, Fin 3)]"
    unfolding get_SMA_nonneg[of 3, simplified] by (simp add: eval_nat_numeral float_eval)
  then have seed: "snd (hd sma) = Fin 2" using sma by simp
  have v0: "snd (E ! 0) = Fin 3"
    unfolding e0 seed by (simp add: eval_nat_numeral float_eval)
  have "snd (E ! 1) =
          fadd (fmul (fsub (Fin (snd (?S ! (nat 3 + 1)))) (snd (E ! (1 - 1)))) ?k) (snd (E ! (1 - 1)))"
    using en E(1) by simp
  then have v1: "snd (E ! 1) = Fin 4"
    using v0 by (simp add: eval_nat_numeral float_eval)
  have "fst (E ! 0) = 13" "fst (E ! 1) = 14"
    using E nth_map[of 0 E fst] nth_map[of 1 E fst] by auto
  with v0 v1 have "E ! 0 = (13, Fin 3)" "E ! 1 = (14, Fin 4)" by (auto simp: prod_eq_iff)
  then have "E = [(13, Fin 3), (14, Fin 4)]"
    using E(1) by (auto simp: list_eq_iff_nth_eq less_Suc_eq eval_nat_numeral)
  then show ?thesis using E0(1) by simp
qed

lemma SMA_of_1_2_4: "get_SMA [(0::nat, 1), (1, 2), (2, 4)] 2 = Inr [(2, Fin (3 / 2))]"
  unfolding get_SMA_nonneg[of 2, simplified] by (simp add: eval_nat_numeral float_eval)

lemma EMA_of_1_2_4:
  "get_EMA [(0::nat, 1), (1, 2), (2, 4)] 2
     = Inr [(2, Fin (7130699410003285 / 2251799813685248))]"
proof -
  let ?S = "[(0::nat, 1::rat), (1, 2), (2, 4)]"
  let ?k = "fdiv (Fin 2) (float_of_int (2 + 1))"
  have h: "(0::int) \<le> 2" "(2::int) < int (length ?S)" by simp_all
  from get_EMA_steps[OF h]
  obtain E sma where sma: "get_SMA ?S 2 = Inr sma"
    and E: "get_EMA ?S 2 = Inr E" "length E = length ?S - nat 2"
           "map fst E = drop (nat 2) (map fst ?S)"
    and step: "\<forall>i < length E. snd (E ! i) =
                 ema_step ?k (snd (?S ! (nat 2 + i))) (if i = 0 then snd (hd sma) else snd (E ! (i - 1)))"
    by blast
  have seed: "snd (hd sma) = Fin (3 / 2)" using sma SMA_of_1_2_4 by simp
  have len: "length E = 1" using E(2) by simp
  have "snd (E ! 0) = ema_step ?k (snd (?S ! (nat 2 + 0))) (snd (hd sma))"
    using step[rule_format, of 0] len by simp
  then have v: "snd (E ! 0) = Fin (7130699410003285 / 2251799813685248)"
    unfolding seed by (simp add: ema_step_def eval_nat_numeral float_eval)
  have "fst (E ! 0) = 2" using E(3) len nth_map[of 0 E fst] by simp
  with v have "E ! 0 = (2, Fin (7130699410003285 / 2251799813685248))"
    by (simp add: prod_eq_iff)
  then have "E = [(2, Fin (7130699410003285 / 2251799813685248))]"
    using len by (cases E) simp_all
  then show ?thesis using E(1) by simp
qed

theorem EMA_is_not_the_exact_recurrence_counterexample:
  "get_SMA [(0::nat, 1), (1, 2), (2, 4)] 2 = Inr [(2, Fin (3 / 2))] \<and>
   get_EMA [(0::nat, 1), (1, 2), (2, 4)] 2
     = Inr [(2, Fin (7130699410003285 / 2251799813685248))] \<and>
   Fin (7130699410003285 / 2251799813685248) \<noteq> Fin ((4 - 3 / 2) * (2 / (2 + 1)) + 3 / 2)"
  using SMA_of_1_2_4 EMA_of_1_2_4 by simp

text \<open>
  C4: with \<open>p \<ge> n\<close> the exponential moving average raises (the lookup of the seed
  at position \<open>0\<close> of an empty series fails), where the simple moving average returns
  the empty series.
\<close>

theorem get_EMA_insufficient_data:
  assumes "int (length S) \<le> p"
  shows "get_EMA S p = Inl IndexError \<and> get_SMA S p = Inr []"
proof -
  have "0 \<le> p" "length S - nat p = 0" using assms by auto
  then have sma: "get_SMA S p = Inr []" using get_SMA_nonneg[of p S] by simp
  show ?thesis unfolding get_EMA_def Let_def sma by (simp add: getitem_empty sma)
qed

theorem get_EMA_insufficient_data_witness:
  "get_EMA [(10::nat, 1), (11, 2)] 2 = Inl IndexError \<and> get_SMA [(10::nat, 1), (11, 2)] 2 = Inr []"
  using get_EMA_insufficient_data[of "[(10::nat, 1), (11, 2)]" 2] by simp

lemma EMA_values_NaN:
  assumes "\<forall>i < n. v i = ema_step k (c i) (if i = 0 then NaN else v (i - 1))"
  shows "(i::nat) < n \<Longrightarrow> v i = NaN"
proof (induction i)
  case 0
  then show ?case using assms by (simp add: ema_step_NaN)
next
  case (Suc i)
  then have "v i = NaN" by auto
  then show ?case using assms Suc.prems by (simp add: ema_step_NaN)
qed

lemma get_SMA_zero: "get_SMA S 0 = Inr (map (\<lambda>(d, c). (d, NaN)) S)"
proof -
  have "map (\<lambda>i. (fst (S ! i), NaN)) [0 ..< length S] = map (\<lambda>(d, c). (d, NaN)) S"
    by (rule nth_equalityI) (simp_all add: case_prod_unfold)
  then show ?thesis using get_SMA_nonneg[of 0 S] by (simp add: np_sum_Nil np_div_zero_zero)
qed

lemma get_EMA_zero:
  assumes "S \<noteq> []"
  shows "get_EMA S 0 = Inr (map (\<lambda>(d, c). (d, NaN)) S)"
proof -
  have n: "(0::int) < int (length S)" using assms by simp
  obtain E sma where sma: "get_SMA S 0 = Inr sma" "sma \<noteq> []"
    and E: "get_EMA S 0 = Inr E" "length E = length S - nat 0"
           "map fst E = drop (nat 0) (map fst S)"
    and step: "\<forall>i < length E. snd (E ! i) =
                 ema_step (fdiv (Fin 2) (float_of_int (0 + 1))) (snd (S ! (nat 0 + i)))
                   (if i = 0 then snd (hd sma) else snd (E ! (i - 1)))"
    using get_EMA_steps[OF order_refl n] by blast
  have "sma = map (\<lambda>(d, c). (d, NaN)) S" using sma(1) by (simp add: get_SMA_zero)
  then have seed: "snd (hd sma) = NaN" using assms by (cases S) (simp_all add: case_prod_unfold)
  have step': "\<forall>i < length E. snd (E ! i) =
                 ema_step (fdiv (Fin 2) (float_of_int (0 + 1))) (snd (S ! (nat 0 + i)))
                   (if i = 0 then NaN else snd (E ! (i - 1)))"
    using step unfolding seed .
  have nan: "\<And>i. i < length E \<Longrightarrow> snd (E ! i) = NaN"
    by (rule EMA_values_NaN[of "length E" "\<lambda>i. snd (E ! i)" "fdiv (Fin 2) (float_of_int (0 + 1))"
        "\<lambda>i. snd (S ! (nat 0 + i))", OF step'])
  have len: "length E = length S" using E(2) by simp
  have fstE: "\<And>i. i < length S \<Longrightarrow> fst (E ! i) = fst (S ! i)"
  proof -
    fix i assume i: "i < length S"
    then have "fst (E ! i) = map fst E ! i" using len by simp
    also have "\<dots> = fst (S ! i)" using E(3) i by simp
    finally show "fst (E ! i) = fst (S ! i)" .
  qed
  have "E = map (\<lambda>(d, c). (d, NaN)) S"
    using len nan fstE by (intro nth_equalityI) (simp_all add: case_prod_unfold prod_eq_iff)
  then show ?thesis using E(1) by simp
qed

lemma get_EMA_neg: "p < 0 \<Longrightarrow> get_EMA S p = Inl ValueError"
  by (simp add: get_EMA_def Let_def get_SMA_neg)

text \<open>
  C3 (as the code has it): neither function checks the period. A negative period makes
  both raise the length mismatch of the series constructor; with period \<open>0\<close> the simple
  moving average returns one not-a-number value for every date of the input, and so does
  the exponential moving average on a non-empty input.
\<close>

theorem period_below_one_unchecked:
  "(p < 0 \<longrightarrow> get_SMA S p = Inl ValueError \<and> get_EMA S p = Inl ValueError) \<and>
   get_SMA S 0 = Inr (map (\<lambda>(d, c). (d, NaN)) S) \<and>
   (S \<noteq> [] \<longrightarrow> get_EMA S 0 = Inr (map (\<lambda>(d, c). (d, NaN)) S))"
  using get_SMA_neg[of p S] get_EMA_neg[of p S] get_SMA_zero[of S] get_EMA_zero[of S]
  by blast

theorem period_below_one_unchecked_witness:
  "get_SMA [(10::nat, 1), (11, 2)] (- 1) = Inl ValueError \<and>
   get_EMA [(10::nat, 1), (11, 2)] (- 1) = Inl ValueError \<and>
   get_EMA [(10::nat, 1), (11, 2)] 0 = Inr [(10, NaN), (11, NaN)]"
  using period_below_one_unchecked[of "- 1" "[(10::nat, 1), (11, 2)]"] by simp

theorem period_zero_returns_counterexample:
  "get_SMA [(10::nat, 1), (11, 2)] 0 = Inr [(10, NaN), (11, NaN)] \<and>
   get_EMA [(10::nat, 1), (11, 2)] 0 = Inr [(10, NaN), (11, NaN)] \<and>
   get_SMA ([] :: (nat, rat) series) 0 = Inr []"
  using get_SMA_zero[of "[(10::nat, 1), (11, 2)]"] get_EMA_zero[of "[(10::nat, 1), (11, 2)]"]
    get_SMA_zero[of "[] :: (nat, rat) series"]
  by simp





lemmas iso_defs = iso_Timestamp_def ymd_fields_def digit_val_def days_in_month_def ymd2ord_def
  days_before_year_def days_before_month_def is_leap_def

lemma iso_2015_01_01: "iso_Timestamp ''2015-01-01'' = Some 735599" by (simp add: iso_defs)
lemma iso_2015_01_02: "iso_Timestamp ''2015-01-02'' = Some 735600" by (simp add: iso_defs)
lemma iso_2015_01_05: "iso_Timestamp ''2015-01-05'' = Some 735603" by (simp add: iso_defs)
lemma iso_2015_12_31: "iso_Timestamp ''2015-12-31'' = Some 735963" by (simp add: iso_defs upt_rec)
lemma iso_not_a_date: "iso_Timestamp ''yesterday'' = None" by (simp add: iso_defs)

lemma Timestamps_all:
  "\<forall>d \<in> set dates. Timestamp d \<noteq> None \<Longrightarrow>
   Timestamps Timestamp dates = Inr (map (\<lambda>d. the (Timestamp d)) dates)"
  by (induction dates) auto

lemma Timestamps_some:
  "\<exists>d \<in> set dates. Timestamp d = None \<Longrightarrow> Timestamps Timestamp dates = Inl ValueError"
proof (induction dates)
  case Nil
  then show ?case by simp
next
  case (Cons d dates)
  show ?case
  proof (cases "Timestamp d")
    case None
    then show ?thesis by simp
  next
    case (Some t)
    then have "\<exists>d \<in> set dates. Timestamp d = None" using Cons.prems by auto
    then show ?thesis using Cons.IH Some by simp
  qed
qed

lemma read_frame_Table:
  "read_frame Timestamp (Table rows) start_date end_date =
     (if \<forall>row \<in> set rows. start_date < fst row \<and> fst row \<le> end_date \<longrightarrow> Timestamp (fst row) \<noteq> None
      then Inr (map (\<lambda>row. (the (Timestamp (fst row)), snd row))
                 (filter (\<lambda>row. start_date < fst row \<and> fst row \<le> end_date) rows))
      else Inl ValueError)"
proof (cases "\<forall>row \<in> set rows. start_date < fst row \<and> fst row \<le> end_date \<longrightarrow> Timestamp (fst row) \<noteq> None")
  case True
  let ?df = "filter (\<lambda>row. start_date < fst row \<and> fst row \<le> end_date) rows"
  have "\<forall>d \<in> set (map fst ?df). Timestamp d \<noteq> None" using True by auto
  then have "Timestamps Timestamp (map fst ?df) = Inr (map (\<lambda>d. the (Timestamp d)) (map fst ?df))"
    by (rule Timestamps_all)
  moreover have "zip (map (\<lambda>d. the (Timestamp d)) (map fst ?df)) (map snd ?df) =
      map (\<lambda>row. (the (Timestamp (fst row)), snd row)) ?df"
    by (simp add: zip_map_map zip_same_conv_map)
  ultimately show ?thesis using True by (simp add: read_frame_def Let_def)
next
  case False
  let ?df = "filter (\<lambda>row. start_date < fst row \<and> fst row \<le> end_date) rows"
  have "\<exists>d \<in> set (map fst ?df). Timestamp d = None" using False by auto
  then have "Timestamps Timestamp (map fst ?df) = Inl ValueError" by (rule Timestamps_some)
  then show ?thesis using False by (simp add: read_frame_def Let_def)
qed

lemma get_data_loop_fails:
  assumes "(file_name, content) \<in> set file_names"
    and "read_frame Timestamp content start_date end_date = Inl e"
  shows "\<exists>e'. get_data_loop Timestamp file_names start_date end_date data = Inl e'"
  using assms
proof (induction file_names arbitrary: data)
  case Nil
  then show ?case by simp
next
  case (Cons f file_names)
  obtain fn c where f: "f = (fn, c)" by (cases f)
  show ?case
  proof (cases "read_frame Timestamp c start_date end_date")
    case (Inl e1)
    then show ?thesis using f by simp
  next
    case (Inr df)
    then have "(file_name, content) \<in> set file_names" using Cons.prems f by auto
    then show ?thesis using Cons.IH Cons.prems(2) Inr f by simp
  qed
qed

lemma get_data_loop_succeeds:
  assumes "\<forall>f \<in> set file_names. \<exists>df. read_frame Timestamp (snd f) start_date end_date = Inr df"
  shows "\<exists>data'. get_data_loop Timestamp file_names start_date end_date data = Inr data' \<and>
           map_of data' = map_of data ++
             map_of (rev (map (\<lambda>f. (take (length (fst f) - 4) (fst f),
                      projr (read_frame Timestamp (snd f) start_date end_date))) file_names))"
  using assms
proof (induction file_names arbitrary: data)
  case Nil
  then show ?case by simp
next
  case (Cons f file_names)
  obtain fn c where f: "f = (fn, c)" by (cases f)
  obtain df where df: "read_frame Timestamp c start_date end_date = Inr df"
    using Cons.prems f by auto
  let ?k = "take (length fn - 4) fn"
  let ?al = "map (\<lambda>f. (take (length (fst f) - 4) (fst f),
                      projr (read_frame Timestamp (snd f) start_date end_date))) file_names"
  have rest: "\<forall>f \<in> set file_names. \<exists>df. read_frame Timestamp (snd f) start_date end_date = Inr df"
    using Cons.prems by auto
  obtain data' where d: "get_data_loop Timestamp file_names start_date end_date (AList.update ?k df data)
       = Inr data'"
     "map_of data' = map_of (AList.update ?k df data) ++ map_of (rev ?al)"
    using Cons.IH[OF rest] by blast
  have "map_of (AList.update ?k df data) = map_of data ++ [?k \<mapsto> df]"
    by (simp add: update_conv')
  then have "map_of data' = map_of data ++ map_of (rev ((?k, df) # ?al))"
    using d(2) by (simp add: map_add_assoc)
  then show ?case using d(1) f df by simp
qed

lemma map_of_rev_distinct:
  "distinct (map fst xs) \<Longrightarrow> map_of (rev xs) = map_of xs"
proof (induction xs)
  case Nil
  then show ?case by simp
next
  case (Cons x xs)
  obtain k v where x: "x = (k, v)" by (cases x)
  have "map_of xs k = None" using Cons.prems x by (simp add: map_of_eq_None_iff)
  then have "[k \<mapsto> v] ++ map_of xs = (map_of xs)(k \<mapsto> v)"
    by (intro ext) (auto simp: map_add_def split: option.splits)
  moreover have "map_of (rev xs) = map_of xs" using Cons by simp
  ultimately show ?case using x by simp
qed


lemma get_data_lookup:
  assumes "\<forall>f \<in> set file_names. \<exists>df. read_frame Timestamp (snd f) start_date end_date = Inr df"
    and "distinct (map (\<lambda>f. take (length (fst f) - 4) (fst f)) file_names)"
  shows "\<exists>data. get_data Timestamp file_names start_date end_date = Inr data \<and>
           (\<forall>f \<in> set file_names.
              map_of data (take (length (fst f) - 4) (fst f)) =
                Some (projr (read_frame Timestamp (snd f) start_date end_date))) \<and>
           dom (map_of data) = (\<lambda>f. take (length (fst f) - 4) (fst f)) ` set file_names"
proof -
  let ?kv = "\<lambda>f. (take (length (fst f) - 4) (fst f),
                      projr (read_frame Timestamp (snd f) start_date end_date))"
  let ?al = "map ?kv file_names"
  obtain data where d: "get_data Timestamp file_names start_date end_date = Inr data"
      "map_of data = map_of [] ++ map_of (rev ?al)"
    unfolding get_data_def using get_data_loop_succeeds[OF assms(1), of "[]"] by blast
  have fst_al: "map fst ?al = map (\<lambda>f. take (length (fst f) - 4) (fst f)) file_names"
    by simp
  have dist: "distinct (map fst ?al)" unfolding fst_al by (rule assms(2))
  have m: "map_of data = map_of ?al" using d(2) map_of_rev_distinct[OF dist] by simp
  have look: "\<forall>f \<in> set file_names.
              map_of data (take (length (fst f) - 4) (fst f)) =
                Some (projr (read_frame Timestamp (snd f) start_date end_date))"
  proof
    fix f assume "f \<in> set file_names"
    then have "?kv f \<in> set ?al" by simp
    then have "map_of ?al (fst (?kv f)) = Some (snd (?kv f))"
      using dist by (intro map_of_is_SomeI) simp_all
    then show "map_of data (take (length (fst f) - 4) (fst f)) =
                Some (projr (read_frame Timestamp (snd f) start_date end_date))"
      using m by simp
  qed
  have "dom (map_of data) = fst ` set ?al" unfolding m by (rule dom_map_of_conv_image_fst)
  also have "\<dots> = (\<lambda>f. take (length (fst f) - 4) (fst f)) ` set file_names"
    by (simp add: image_image)
  finally show ?thesis using d(1) look by blast
qed

lemma read_frame_readable:
  assumes "snd f = Table rows"
    and "\<forall>row \<in> set rows. start_date < fst row \<and> fst row \<le> end_date \<longrightarrow> Timestamp (fst row) \<noteq> None"
  shows "read_frame Timestamp (snd f) start_date end_date =
     Inr (map (\<lambda>row. (the (Timestamp (fst row)), snd row))
            (filter (\<lambda>row. start_date < fst row \<and> fst row \<le> end_date) rows))"
  using assms by (simp add: read_frame_Table)

lemma filter_spanning_interval:
  fixes start_date :: string
  assumes "\<forall>row \<in> set rows. start_date \<le> fst row \<and> fst row \<le> end_date"
  shows "length (filter (\<lambda>row. start_date < fst row \<and> fst row \<le> end_date) rows) =
         length rows - length (filter (\<lambda>row. fst row = start_date) rows)"
proof -
  have "filter (\<lambda>row. start_date < fst row \<and> fst row \<le> end_date) rows =
        filter (\<lambda>row. \<not> fst row = start_date) rows"
    using assms by (intro filter_cong) auto
  moreover have "length (filter (\<lambda>row. fst row = start_date) rows) +
        length (filter (\<lambda>row. \<not> fst row = start_date) rows) = length rows"
    by (rule sum_length_filter_compl)
  ultimately show ?thesis by simp
qed

lemma iso_2015_02_30: "iso_Timestamp ''2015-02-30'' = None" by (simp add: iso_defs)

lemma read_frame_result:
  "read_frame Timestamp content start_date end_date =
     (case content of
        Unreadable \<Rightarrow> Inl ReadError
      | NoDateColumn \<Rightarrow> Inl KeyError
      | Table rows \<Rightarrow>
          if \<exists>row \<in> set rows. start_date < fst row \<and> fst row \<le> end_date \<and> Timestamp (fst row) = None
          then Inl ValueError
          else Inr (map (\<lambda>row. (the (Timestamp (fst row)), snd row))
                 (filter (\<lambda>row. start_date < fst row \<and> fst row \<le> end_date) rows)))"
proof (cases content)
  case (Table rows)
  then show ?thesis by (auto simp: read_frame_Table)
qed (simp_all add: read_frame_def)

lemma get_data_dom:
  assumes "\<forall>f \<in> set file_names. \<exists>df. read_frame Timestamp (snd f) start_date end_date = Inr df"
  shows "\<exists>data. get_data Timestamp file_names start_date end_date = Inr data \<and>
           dom (map_of data) = (\<lambda>f. take (length (fst f) - 4) (fst f)) ` set file_names"
proof -
  let ?al = "map (\<lambda>f. (take (length (fst f) - 4) (fst f),
                      projr (read_frame Timestamp (snd f) start_date end_date))) file_names"
  obtain data where d: "get_data Timestamp file_names start_date end_date = Inr data"
      "map_of data = map_of [] ++ map_of (rev ?al)"
    unfolding get_data_def using get_data_loop_succeeds[OF assms, of "[]"] by blast
  have "dom (map_of data) = fst ` set (rev ?al)"
    unfolding d(2) by (simp add: dom_map_of_conv_image_fst)
  also have "\<dots> = (\<lambda>f. take (length (fst f) - 4) (fst f)) ` set file_names"
    by (simp add: image_image)
  finally show ?thesis using d(1) by blast
qed

text \<open>
  C6 (as the code has it): the loop over the files has no handler. If reading any file
  of the batch fails (the file cannot be read, it has no \<open>Date\<close> column, or a date in
  range does not parse), the call raises and returns no dictionary; otherwise it returns a
  dictionary whose keys are the keys of all the files.
\<close>

theorem get_data_failure_aborts_batch:
  "(if \<exists>f \<in> set file_names. snd f = Unreadable \<or> snd f = NoDateColumn \<or>
         (\<exists>rows. snd f = Table rows \<and>
            (\<exists>row \<in> set rows. start_date < fst row \<and> fst row \<le> end_date
               \<and> Timestamp (fst row) = None))
    then \<exists>e. get_data Timestamp file_names start_date end_date = Inl e
    else \<exists>data. get_data Timestamp file_names start_date end_date = Inr data \<and>
           dom (map_of data) = (\<lambda>f. take (length (fst f) - 4) (fst f)) ` set file_names)"
proof (cases "\<exists>f \<in> set file_names. snd f = Unreadable \<or> snd f = NoDateColumn \<or>
         (\<exists>rows. snd f = Table rows \<and>
            (\<exists>row \<in> set rows. start_date < fst row \<and> fst row \<le> end_date
               \<and> Timestamp (fst row) = None))")
  case True
  then obtain f where f: "f \<in> set file_names"
    "snd f = Unreadable \<or> snd f = NoDateColumn \<or>
         (\<exists>rows. snd f = Table rows \<and>
            (\<exists>row \<in> set rows. start_date < fst row \<and> fst row \<le> end_date
               \<and> Timestamp (fst row) = None))"
    by blast
  have "\<exists>e. read_frame Timestamp (snd f) start_date end_date = Inl e"
    using f(2) by (cases "snd f") (force simp: read_frame_result)+
  then obtain e where "read_frame Timestamp (snd f) start_date end_date = Inl e" by blast
  moreover have "(fst f, snd f) \<in> set file_names" using f(1) by simp
  ultimately have "\<exists>e'. get_data_loop Timestamp file_names start_date end_date [] = Inl e'"
    by (rule get_data_loop_fails[rotated])
  then have res: "\<exists>e. get_data Timestamp file_names start_date end_date = Inl e"
    unfolding get_data_def .
  show ?thesis by (subst if_P[OF True]) (rule res)
next
  case False
  have "\<forall>f \<in> set file_names. \<exists>df. read_frame Timestamp (snd f) start_date end_date = Inr df"
  proof
    fix f assume "f \<in> set file_names"
    then have "\<not> (snd f = Unreadable \<or> snd f = NoDateColumn \<or>
         (\<exists>rows. snd f = Table rows \<and>
            (\<exists>row \<in> set rows. start_date < fst row \<and> fst row \<le> end_date
               \<and> Timestamp (fst row) = None)))"
      using False by blast
    then show "\<exists>df. read_frame Timestamp (snd f) start_date end_date = Inr df"
      by (cases "snd f") (auto simp: read_frame_result)
  qed
  then have res: "\<exists>data. get_data Timestamp file_names start_date end_date = Inr data \<and>
           dom (map_of data) = (\<lambda>f. take (length (fst f) - 4) (fst f)) ` set file_names"
    by (rule get_data_dom)
  show ?thesis by (subst if_not_P[OF False]) (rule res)
qed

theorem get_data_failure_aborts_batch_witness:
  "(\<exists>e. get_data iso_Timestamp
      [(''GOOD.csv'', Table [(''2015-01-02'', [1::rat])]),
       (''BAD.csv'', Table [(''2015-02-30'', [2])])] ''2015-01-01'' ''2015-12-31'' = Inl e) \<and>
   (\<exists>data. get_data iso_Timestamp
      [(''GOOD.csv'', Table [(''2015-01-02'', [1::rat])])] ''2015-01-01'' ''2015-12-31'' = Inr data \<and>
      dom (map_of data) = {''GOOD''})"
proof -
  have "\<exists>e. get_data iso_Timestamp
      [(''GOOD.csv'', Table [(''2015-01-02'', [1::rat])]),
       (''BAD.csv'', Table [(''2015-02-30'', [2])])] ''2015-01-01'' ''2015-12-31'' = Inl e"
    using get_data_failure_aborts_batch[of
      "[(''GOOD.csv'', Table [(''2015-01-02'', [1::rat])]), (''BAD.csv'', Table [(''2015-02-30'', [2])])]"
      "''2015-01-01''" "''2015-12-31''" iso_Timestamp]
    by (simp add: iso_2015_02_30 iso_2015_01_02)
  moreover have "\<exists>data. get_data iso_Timestamp
      [(''GOOD.csv'', Table [(''2015-01-02'', [1::rat])])] ''2015-01-01'' ''2015-12-31'' = Inr data \<and>
      dom (map_of data) = {''GOOD''}"
    using get_data_failure_aborts_batch[of
      "[(''GOOD.csv'', Table [(''2015-01-02'', [1::rat])])]"
      "''2015-01-01''" "''2015-12-31''" iso_Timestamp]
    by (simp add: iso_2015_01_02)
  ultimately show ?thesis by blast
qed

theorem one_bad_file_aborts_batch_counterexample:
  "get_data iso_Timestamp
     [(''BAD.csv'', NoDateColumn), (''GOOD.csv'', Table [(''2015-01-02'', [1::rat])])]
     ''2015-01-01'' ''2015-12-31'' = Inl KeyError \<and>
   get_data iso_Timestamp
     [(''GOOD.csv'', Table [(''2015-01-02'', [1::rat])]), (''BAD.csv'', Table [(''2015-02-30'', [2])])]
     ''2015-01-01'' ''2015-12-31'' = Inl ValueError \<and>
   get_data iso_Timestamp
     [(''GOOD.csv'', Table [(''2015-01-02'', [1::rat])])]
     ''2015-01-01'' ''2015-12-31'' = Inr [(''GOOD'', [(735600, [1])])]"
  by (simp add: get_data_def read_frame_def iso_2015_01_02 iso_2015_02_30)

lemma get_data_returned_frames:
  assumes "get_data Timestamp file_names start_date end_date = Inr data"
    and "f \<in> set file_names"
  shows "\<exists>df. read_frame Timestamp (snd f) start_date end_date = Inr df"
proof (cases "read_frame Timestamp (snd f) start_date end_date")
  case (Inl e)
  have "(fst f, snd f) \<in> set file_names" using assms(2) by simp
  then have "\<exists>e'. get_data_loop Timestamp file_names start_date end_date [] = Inl e'"
    using Inl by (rule get_data_loop_fails)
  then show ?thesis using assms(1) by (simp add: get_data_def)
next
  case (Inr df)
  then show ?thesis by blast
qed

text \<open>
  C7 (as the code has it): ingestion neither sorts nor removes duplicates. The frame
  returned for a file holds the in-range rows in the order of the file: its dates are the
  timestamps of the in-range date cells, one after the other, and so they are strictly
  increasing exactly when those of the file are.
\<close>

theorem get_data_keeps_file_order:
  assumes "get_data Timestamp file_names start_date end_date = Inr data"
    and "distinct (map (\<lambda>f. take (length (fst f) - 4) (fst f)) file_names)"
    and "(file_name, Table rows) \<in> set file_names"
  shows "\<exists>df. map_of data (take (length file_name - 4) file_name) = Some df \<and>
           map fst df = map (\<lambda>row. the (Timestamp (fst row)))
                          (filter (\<lambda>row. start_date < fst row \<and> fst row \<le> end_date) rows) \<and>
           (sorted_wrt (<) (map fst df) \<longleftrightarrow>
              sorted_wrt (\<lambda>row row'. the (Timestamp (fst row)) < the (Timestamp (fst row')))
                (filter (\<lambda>row. start_date < fst row \<and> fst row \<le> end_date) rows))"
proof -
  let ?kept = "filter (\<lambda>row. start_date < fst row \<and> fst row \<le> end_date) rows"
  have ok: "\<forall>f \<in> set file_names. \<exists>df. read_frame Timestamp (snd f) start_date end_date = Inr df"
    using get_data_returned_frames[OF assms(1)] by blast
  obtain data' where d: "get_data Timestamp file_names start_date end_date = Inr data'"
    "\<forall>f \<in> set file_names.
              map_of data' (take (length (fst f) - 4) (fst f)) =
                Some (projr (read_frame Timestamp (snd f) start_date end_date))"
    using get_data_lookup[OF ok assms(2)] by blast
  have same: "data' = data" using d(1) assms(1) by simp
  have look: "map_of data (take (length file_name - 4) file_name) =
                Some (projr (read_frame Timestamp (Table rows) start_date end_date))"
    using d(2) assms(3) unfolding same by fastforce
  obtain df where df: "read_frame Timestamp (Table rows) start_date end_date = Inr df"
    using ok assms(3) by fastforce
  then have dfeq: "df = map (\<lambda>row. (the (Timestamp (fst row)), snd row)) ?kept"
    by (simp add: read_frame_Table split: if_splits)
  have dates: "map fst df = map (\<lambda>row. the (Timestamp (fst row))) ?kept"
    unfolding dfeq by simp
  have "sorted_wrt (<) (map fst df) \<longleftrightarrow>
      sorted_wrt (\<lambda>row row'. the (Timestamp (fst row)) < the (Timestamp (fst row'))) ?kept"
    unfolding dates by (simp add: sorted_wrt_map)
  then show ?thesis using look df dates by simp
qed

theorem get_data_keeps_file_order_witness:
  "\<exists>df. map_of [(''ADI'', [(735603::int, [2::rat]), (735600, [1]), (735600, [1])])] ''ADI'' = Some df \<and>
     map fst df = [735603, 735600, 735600]"
proof -
  let ?rows = "[(''2015-01-05'', [2::rat]), (''2015-01-02'', [1]), (''2015-01-02'', [1])]"
  let ?files = "[(''ADI.csv'', Table ?rows)]"
  let ?data = "[(''ADI'', [(735603::int, [2::rat]), (735600, [1]), (735600, [1])])]"
  have h1: "get_data iso_Timestamp ?files ''2015-01-01'' ''2015-12-31'' = Inr ?data"
    by (simp add: get_data_def read_frame_def iso_2015_01_02 iso_2015_01_05)
  have h2: "distinct (map (\<lambda>f. take (length (fst f) - 4) (fst f)) ?files)" by simp
  have h3: "(''ADI.csv'', Table ?rows) \<in> set ?files" by simp
  from get_data_keeps_file_order[OF h1 h2 h3]
  obtain df where "map_of ?data (take (length ''ADI.csv'' - 4) ''ADI.csv'') = Some df"
    "map fst df = map (\<lambda>row. the (iso_Timestamp (fst row)))
                          (filter (\<lambda>row. ''2015-01-01'' < fst row \<and> fst row \<le> ''2015-12-31'') ?rows)"
    by blast
  then have "map_of ?data ''ADI'' = Some df \<and> map fst df = [735603, 735600, 735600]"
    by (simp add: iso_2015_01_02 iso_2015_01_05)
  then show ?thesis by (rule exI)
qed

theorem unsorted_file_stays_unsorted_counterexample:
  "get_data iso_Timestamp
     [(''ADI.csv'', Table [(''2015-01-05'', [2::rat]), (''2015-01-02'', [1]), (''2015-01-02'', [1])])]
     ''2015-01-01'' ''2015-12-31''
     = Inr [(''ADI'', [(735603, [2]), (735600, [1]), (735600, [1])])] \<and>
   \<not> sorted_wrt (<) (map fst [(735603::int, [2::rat]), (735600, [1]), (735600, [1])]) \<and>
   \<not> distinct (map fst [(735603::int, [2::rat]), (735600, [1]), (735600, [1])])"
  by (simp add: get_data_def read_frame_def iso_2015_01_02 iso_2015_01_05)

text \<open>
  C8: the candlestick frame has one row for every row of the data, in the same order: the
  day number of the date counted from the epoch, with the first four cells of the row
  (open, high, low, close). Strictly increasing dates give strictly increasing day
  numbers, and empty data gives an empty frame.
\<close>

theorem ADI_candle_projection:
  fixes ADI_data :: "'a frame"
  assumes "sorted_wrt (<) (map fst ADI_data)"
  shows "length (ADI_candle epoch ADI_data) = length ADI_data \<and>
         (\<forall>i < length ADI_data.
            fst (ADI_candle epoch ADI_data ! i) = of_int (fst (ADI_data ! i)) - of_int epoch \<and>
            snd (ADI_candle epoch ADI_data ! i) = take 4 (snd (ADI_data ! i)) \<and>
            (\<forall>Open High Low Close rest.
               snd (ADI_data ! i) = Open # High # Low # Close # rest \<longrightarrow>
               snd (ADI_candle epoch ADI_data ! i) = [Open, High, Low, Close])) \<and>
         sorted_wrt (<) (map fst (ADI_candle epoch ADI_data)) \<and>
         ADI_candle epoch ([] :: 'a frame) = []"
proof -
  have eq: "ADI_candle epoch ADI_data =
      map (\<lambda>row. (date2num epoch (fst row), take 4 (snd row))) ADI_data" for ADI_data :: "'a frame"
    by (simp add: ADI_candle_def zip_map_map zip_same_conv_map)
  have mono: "sorted_wrt (<) (map fst (ADI_candle epoch ADI_data))"
  proof -
    have "map fst (ADI_candle epoch ADI_data) = map (date2num epoch) (map fst ADI_data)"
      unfolding eq by (simp add: comp_def)
    moreover have "sorted_wrt (<) (map (date2num epoch) (map fst ADI_data))"
      using assms by (simp add: sorted_wrt_map date2num_def)
    ultimately show ?thesis by simp
  qed
  have len: "length (ADI_candle epoch ADI_data) = length ADI_data"
    unfolding eq by simp
  have row: "\<forall>i < length ADI_data.
            fst (ADI_candle epoch ADI_data ! i) = of_int (fst (ADI_data ! i)) - of_int epoch \<and>
            snd (ADI_candle epoch ADI_data ! i) = take 4 (snd (ADI_data ! i)) \<and>
            (\<forall>Open High Low Close rest.
               snd (ADI_data ! i) = Open # High # Low # Close # rest \<longrightarrow>
               snd (ADI_candle epoch ADI_data ! i) = [Open, High, Low, Close])"
  proof (intro allI impI)
    fix i assume i: "i < length ADI_data"
    have at: "ADI_candle epoch ADI_data ! i =
        (date2num epoch (fst (ADI_data ! i)), take 4 (snd (ADI_data ! i)))"
      unfolding eq using i by simp
    show "fst (ADI_candle epoch ADI_data ! i) = of_int (fst (ADI_data ! i)) - of_int epoch \<and>
            snd (ADI_candle epoch ADI_data ! i) = take 4 (snd (ADI_data ! i)) \<and>
            (\<forall>Open High Low Close rest.
               snd (ADI_data ! i) = Open # High # Low # Close # rest \<longrightarrow>
               snd (ADI_candle epoch ADI_data ! i) = [Open, High, Low, Close])"
      unfolding at by (simp add: date2num_def)
  qed
  have emp: "ADI_candle epoch ([] :: 'a frame) = []" unfolding eq by simp
  from len row mono emp show ?thesis by (intro conjI)
qed

theorem ADI_candle_projection_witness:
  "ADI_candle 0 [(735600, [1, 4, 0, 3, 3, 900::rat]), (735603, [3, 5, 2, 4, 4, 800])]
     ! 1 = (735603, [3, 5, 2, 4]) \<and>
   sorted_wrt (<) (map fst
     (ADI_candle 0 [(735600, [1, 4, 0, 3, 3, 900::rat]), (735603, [3, 5, 2, 4, 4, 800])]))"
proof -
  let ?d = "[(735600::int, [1, 4, 0, 3, 3, 900::rat]), (735603, [3, 5, 2, 4, 4, 800])]"
  have h: "sorted_wrt (<) (map fst ?d)" by simp
  note t = ADI_candle_projection[OF h, of 0]
  have row: "fst (ADI_candle 0 ?d ! 1) = of_int (fst (?d ! 1)) - of_int 0 \<and>
            snd (ADI_candle 0 ?d ! 1) = take 4 (snd (?d ! 1))"
    using t[THEN conjunct2, THEN conjunct1, rule_format, of 1] by simp
  have inc: "sorted_wrt (<) (map fst (ADI_candle 0 ?d))"
    by (rule t[THEN conjunct2, THEN conjunct2, THEN conjunct1])
  have "ADI_candle 0 ?d ! 1 = (735603, [3, 5, 2, 4])"
    using row by (simp add: prod_eq_iff)
  with inc show ?thesis by (intro conjI)
qed

text \<open>
  C9: the key is the file name without its last four characters, which is the name
  without its extension only for an extension of three characters. A file named
  \<open>01ADI.data\<close> is stored under \<open>01ADI.\<close>, and a file named \<open>01ADI\<close> under \<open>0\<close>.
\<close>

theorem key_drops_four_characters:
  "get_data iso_Timestamp [(''01ADI.data'', Table [(''2015-01-02'', [1::rat])])]
     ''2015-01-01'' ''2015-12-31'' = Inr [(''01ADI.'', [(735600, [1])])] \<and>
   get_data iso_Timestamp [(''01ADI'', Table [(''2015-01-02'', [1::rat])])]
     ''2015-01-01'' ''2015-12-31'' = Inr [(''0'', [(735600, [1])])] \<and>
   get_data iso_Timestamp [(''01ADI.csv'', Table [(''2015-01-02'', [1::rat])])]
     ''2015-01-01'' ''2015-12-31'' = Inr [(''01ADI'', [(735600, [1])])]"
  by (simp add: get_data_def read_frame_def iso_2015_01_02)

subsection \<open>Text order and date order\<close>

lemma digit_val_order:
  assumes "digit_val c = Some a" and "digit_val c' = Some b"
  shows "(c < c' \<longleftrightarrow> a < b) \<and> (c = c' \<longleftrightarrow> a = b)"
proof -
  have c: "48 \<le> (of_char c :: nat)" "a = of_char c - 48"
    using assms(1) by (auto simp: digit_val_def less_eq_char_def split: if_splits)
  have c': "48 \<le> (of_char c' :: nat)" "b = of_char c' - 48"
    using assms(2) by (auto simp: digit_val_def less_eq_char_def split: if_splits)
  define n n' where "n = (of_char c :: nat)" and "n' = (of_char c' :: nat)"
  have "(c = c') = (n = n')" "(c < c') = (n < n')"
    by (simp_all add: n_def n'_def less_char_def)
  moreover have "48 \<le> n" "48 \<le> n'" "a = n - 48" "b = n' - 48"
    using c c' by (simp_all add: n_def n'_def)
  ultimately show ?thesis by auto
qed

lemma digit_val_less_10: "digit_val c = Some a \<Longrightarrow> a < 10"
  by (auto simp: digit_val_def less_eq_char_def split: if_splits)

lemma decimal_acc:
  "decimal acc cs = map_option (\<lambda>w. acc * 10 ^ length cs + w) (decimal 0 cs)"
proof (induction cs arbitrary: acc)
  case Nil
  then show ?case by simp
next
  case (Cons c cs)
  show ?case
  proof (cases "digit_val c")
    case None
    then show ?thesis by simp
  next
    case (Some d)
    have "decimal acc (c # cs) = decimal (10 * acc + d) cs" using Some by simp
    also have "\<dots> = map_option (\<lambda>w. (10 * acc + d) * 10 ^ length cs + w) (decimal 0 cs)"
      by (rule Cons.IH)
    also have "\<dots> = map_option (\<lambda>w. acc * 10 ^ length (c # cs) + w)
                        (map_option (\<lambda>w. d * 10 ^ length cs + w) (decimal 0 cs))"
      by (simp add: option.map_comp comp_def algebra_simps)
    also have "map_option (\<lambda>w. d * 10 ^ length cs + w) (decimal 0 cs) = decimal d cs"
      by (rule Cons.IH[symmetric])
    also have "decimal d cs = decimal 0 (c # cs)" using Some by simp
    finally show ?thesis .
  qed
qed

lemma decimal_bound: "decimal 0 cs = Some w \<Longrightarrow> w < 10 ^ length cs"
proof (induction cs arbitrary: w)
  case Nil
  then show ?case by simp
next
  case (Cons c cs)
  then obtain d where d: "digit_val c = Some d" "decimal d cs = Some w"
    by (auto split: option.splits)
  then obtain w' where w': "decimal 0 cs = Some w'" "w = d * 10 ^ length cs + w'"
    using decimal_acc[of d cs] by auto
  define K :: nat where "K = 10 ^ length cs"
  have "w' < K" using Cons.IH[OF w'(1)] by (simp add: K_def)
  moreover have "d < 10" using d(1) by (rule digit_val_less_10)
  then have "d * K \<le> 9 * K" by (intro mult_le_mono1) simp
  moreover have "w = d * K + w'" using w'(2) by (simp add: K_def)
  ultimately have "w < 10 * K" by linarith
  then show ?case by (simp add: K_def)
qed

lemma weighted_order:
  fixes K :: nat
  assumes "w < K" and "w' < K"
  shows "(d * K + w < d' * K + w' \<longleftrightarrow> d < d' \<or> d = d' \<and> w < w') \<and>
         (d * K + w = d' * K + w' \<longleftrightarrow> d = d' \<and> w = w')"
proof -
  have lt: "a * K + x < b * K + y" if "a < b" "x < K" for a b x y
  proof -
    have "a * K + x < (a + 1) * K" using that(2) by simp
    also have "\<dots> \<le> b * K" using that(1) by (intro mult_le_mono1) simp
    finally show ?thesis by simp
  qed
  consider "d < d'" | "d' < d" | "d = d'" by linarith
  then show ?thesis
  proof cases
    case 1
    then show ?thesis using lt[OF 1 assms(1), of w'] by auto
  next
    case 2
    then show ?thesis using lt[OF 2 assms(2), of w] by auto
  next
    case 3
    then show ?thesis by auto
  qed
qed

lemma decimal_order:
  assumes "length xs = length ys" and "decimal 0 xs = Some a" and "decimal 0 ys = Some b"
  shows "(xs < ys \<longleftrightarrow> a < b) \<and> (xs = ys \<longleftrightarrow> a = b)"
  using assms
proof (induction xs ys arbitrary: a b rule: list_induct2)
  case Nil
  then show ?case by simp
next
  case (Cons c xs c' ys)
  obtain d where d: "digit_val c = Some d" "decimal d xs = Some a"
    using Cons.prems(1) by (auto split: option.splits)
  obtain d' where d': "digit_val c' = Some d'" "decimal d' ys = Some b"
    using Cons.prems(2) by (auto split: option.splits)
  obtain w where w: "decimal 0 xs = Some w" "a = d * 10 ^ length xs + w"
    using d(2) decimal_acc[of d xs] by auto
  obtain w' where w': "decimal 0 ys = Some w'" "b = d' * 10 ^ length ys + w'"
    using d'(2) decimal_acc[of d' ys] by auto
  have bw: "w < 10 ^ length xs" "w' < 10 ^ length xs"
    using decimal_bound[OF w(1)] decimal_bound[OF w'(1)] Cons.hyps by simp_all
  have IH: "(xs < ys \<longleftrightarrow> w < w') \<and> (xs = ys \<longleftrightarrow> w = w')"
    using Cons.IH[OF w(1) w'(1)] .
  have ch: "(c < c' \<longleftrightarrow> d < d') \<and> (c = c' \<longleftrightarrow> d = d')"
    using digit_val_order[OF d(1) d'(1)] .
  have ar: "(a < b \<longleftrightarrow> d < d' \<or> d = d' \<and> w < w') \<and> (a = b \<longleftrightarrow> d = d' \<and> w = w')"
    using weighted_order[OF bw, of d d'] w(2) w'(2) Cons.hyps by simp
  show ?case using IH ch ar by simp
qed

lemma append_less_same_length:
  fixes xs ys :: "'a::linorder list"
  assumes "length xs = length ys"
  shows "(xs @ u < ys @ v) \<longleftrightarrow> (xs < ys \<or> xs = ys \<and> u < v)"
  using assms by (induction xs ys rule: list_induct2) auto

lemma days_in_month_bounds:
  assumes "1 \<le> m" and "m \<le> 12"
  shows "28 \<le> days_in_month y m \<and> days_in_month y m \<le> 31"
proof -
  have "m = 1 \<or> m = 2 \<or> m = 3 \<or> m = 4 \<or> m = 5 \<or> m = 6 \<or> m = 7 \<or> m = 8 \<or> m = 9
        \<or> m = 10 \<or> m = 11 \<or> m = 12"
    using assms by arith
  then show ?thesis by (elim disjE) (simp_all add: days_in_month_def)
qed

lemma days_before_month_Suc:
  "1 \<le> m \<Longrightarrow> days_before_month y (Suc m) = days_before_month y m + days_in_month y m"
  by (simp add: days_before_month_def)

lemma days_before_month_mono: "m \<le> m' \<Longrightarrow> days_before_month y m \<le> days_before_month y m'"
proof (rule lift_Suc_mono_le[of "days_before_month y"])
  fix n show "days_before_month y n \<le> days_before_month y (Suc n)"
    by (cases "1 \<le> n") (simp_all add: days_before_month_Suc, simp add: days_before_month_def)
qed

lemma days_before_month_13:
  "days_before_month y 13 = (if is_leap y then 366 else 365)"
  by (simp add: days_before_month_def days_in_month_def upt_rec)

lemma day_of_year_bound:
  assumes "1 \<le> m" and "m \<le> 12" and "d \<le> days_in_month y m"
  shows "days_before_month y m + d \<le> (if is_leap y then 366 else 365)"
proof -
  have "days_before_month y m + d \<le> days_before_month y (Suc m)"
    using assms(1,3) by (simp add: days_before_month_Suc)
  also have "\<dots> \<le> days_before_month y 13"
    using assms(2) by (intro days_before_month_mono) simp
  finally show ?thesis by (simp add: days_before_month_13)
qed

lemma days_before_year_Suc:
  assumes "1 \<le> y"
  shows "days_before_year (Suc y) = days_before_year y + (if is_leap y then 366 else 365)"
proof -
  obtain z where z: "y = Suc z" using assms by (cases y) auto
  define a b c where "a = z div 4" and "b = z div 100" and "c = z div 400"
  define a' b' c' where "a' = Suc z div 4" and "b' = Suc z div 100" and "c' = Suc z div 400"
  have e1: "days_before_year (Suc y) = Suc z * 365 + a' - b' + c'"
    by (simp add: days_before_year_def z a'_def b'_def c'_def)
  have e2: "days_before_year y = z * 365 + a - b + c"
    by (simp add: days_before_year_def z a_def b_def c_def)
  have le: "b \<le> a" "b' \<le> a'"
    unfolding a_def b_def a'_def b'_def by (rule div_le_mono2; simp)+
  have d4: "a' = a + (if Suc z mod 4 = 0 then 1 else 0)"
    unfolding a_def a'_def by (simp add: div_Suc)
  have d100: "b' = b + (if Suc z mod 100 = 0 then 1 else 0)"
    unfolding b_def b'_def by (simp add: div_Suc)
  have d400: "c' = c + (if Suc z mod 400 = 0 then 1 else 0)"
    unfolding c_def c'_def by (simp add: div_Suc)
  have m1: "Suc z mod 100 = 0 \<Longrightarrow> Suc z mod 4 = 0"
  proof -
    assume "Suc z mod 100 = 0"
    then have "100 dvd Suc z" by (simp add: mod_eq_0_iff_dvd)
    moreover have "(4::nat) dvd 100" by simp
    ultimately have "4 dvd Suc z" by (rule dvd_trans[rotated])
    then show "Suc z mod 4 = 0" by (simp add: mod_eq_0_iff_dvd)
  qed
  have m2: "Suc z mod 400 = 0 \<Longrightarrow> Suc z mod 100 = 0"
  proof -
    assume "Suc z mod 400 = 0"
    then have "400 dvd Suc z" by (simp add: mod_eq_0_iff_dvd)
    moreover have "(100::nat) dvd 400" by simp
    ultimately have "100 dvd Suc z" by (rule dvd_trans[rotated])
    then show "Suc z mod 100 = 0" by (simp add: mod_eq_0_iff_dvd)
  qed
  have leap: "is_leap y = (Suc z mod 4 = 0 \<and> (Suc z mod 100 \<noteq> 0 \<or> Suc z mod 400 = 0))"
    by (simp add: is_leap_def z)
  show ?thesis
  proof (cases "Suc z mod 4 = 0")
    case False
    then have "Suc z mod 100 \<noteq> 0" using m1 by auto
    then have "Suc z mod 400 \<noteq> 0" using m2 by auto
    note n = \<open>Suc z mod 100 \<noteq> 0\<close> \<open>Suc z mod 400 \<noteq> 0\<close>
    have "a' = a" "b' = b" "c' = c" "\<not> is_leap y"
      using n False d4 d100 d400 leap by simp_all
    then show ?thesis unfolding e1 e2 using le by simp
  next
    case T4: True
    show ?thesis
    proof (cases "Suc z mod 100 = 0")
      case False
      then have "Suc z mod 400 \<noteq> 0" using m2 by auto
      then have "a' = a + 1" "b' = b" "c' = c" "is_leap y"
        using T4 False d4 d100 d400 leap by simp_all
      then show ?thesis unfolding e1 e2 using le by simp
    next
      case T100: True
      show ?thesis
      proof (cases "Suc z mod 400 = 0")
        case False
        then have "a' = a + 1" "b' = b + 1" "c' = c" "\<not> is_leap y"
          using T4 T100 d4 d100 d400 leap by simp_all
        then show ?thesis unfolding e1 e2 using le by simp
      next
        case True
        then have "a' = a + 1" "b' = b + 1" "c' = c + 1" "is_leap y"
          using T4 T100 d4 d100 d400 leap by simp_all
        then show ?thesis unfolding e1 e2 using le by simp
      qed
    qed
  qed
qed

lemma days_before_year_mono: "y \<le> y' \<Longrightarrow> days_before_year y \<le> days_before_year y'"
proof (rule lift_Suc_mono_le[of days_before_year])
  fix n show "days_before_year n \<le> days_before_year (Suc n)"
  proof (cases "1 \<le> n")
    case True
    then show ?thesis by (simp add: days_before_year_Suc)
  next
    case False
    then have "n = 0" by simp
    then show ?thesis by (simp add: days_before_year_def)
  qed
qed


lemma ymd2ord_less:
  assumes v: "1 \<le> y" "1 \<le> m" "m \<le> 12" "1 \<le> d" "d \<le> days_in_month y m"
    and v': "1 \<le> y'" "1 \<le> m'" "m' \<le> 12" "1 \<le> d'" "d' \<le> days_in_month y' m'"
    and lex: "y < y' \<or> y = y' \<and> (m < m' \<or> m = m' \<and> d < d')"
  shows "ymd2ord y m d < ymd2ord y' m' d'"
proof -
  consider "y < y'" | "y = y'" "m < m'" | "y = y'" "m = m'" "d < d'" using lex by blast
  then show ?thesis
  proof cases
    case 1
    have "ymd2ord y m d \<le> days_before_year y + (if is_leap y then 366 else 365)"
      using day_of_year_bound[OF v(2,3,5)] by (simp add: ymd2ord_def)
    also have "\<dots> = days_before_year (Suc y)" using v(1) by (simp add: days_before_year_Suc)
    also have "\<dots> \<le> days_before_year y'" using 1 by (intro days_before_year_mono) simp
    also have "\<dots> < ymd2ord y' m' d'" using v'(4) by (simp add: ymd2ord_def)
    finally show ?thesis .
  next
    case 2
    have "days_before_month y m + d \<le> days_before_month y (Suc m)"
      using v(2,5) by (simp add: days_before_month_Suc)
    also have "\<dots> \<le> days_before_month y m'" using 2(2) by (intro days_before_month_mono) simp
    also have "\<dots> < days_before_month y m' + d'" using v'(4) by simp
    finally show ?thesis using 2(1) by (simp add: ymd2ord_def)
  next
    case 3
    then show ?thesis by (simp add: ymd2ord_def)
  qed
qed

lemma ymd2ord_order:
  assumes v: "1 \<le> y" "1 \<le> m" "m \<le> 12" "1 \<le> d" "d \<le> days_in_month y m"
    and v': "1 \<le> y'" "1 \<le> m'" "m' \<le> 12" "1 \<le> d'" "d' \<le> days_in_month y' m'"
  shows "(ymd2ord y m d < ymd2ord y' m' d' \<longleftrightarrow>
           y < y' \<or> y = y' \<and> (m < m' \<or> m = m' \<and> d < d')) \<and>
         (ymd2ord y m d = ymd2ord y' m' d' \<longleftrightarrow> y = y' \<and> m = m' \<and> d = d')"
proof -
  let ?lt = "y < y' \<or> y = y' \<and> (m < m' \<or> m = m' \<and> d < d')"
  let ?gt = "y' < y \<or> y' = y \<and> (m' < m \<or> m' = m \<and> d' < d)"
  let ?eq = "y = y' \<and> m = m' \<and> d = d'"
  have tri: "?lt \<or> ?gt \<or> ?eq" by linarith
  have a: "?lt \<Longrightarrow> ymd2ord y m d < ymd2ord y' m' d'" by (rule ymd2ord_less[OF v v'])
  have b: "?gt \<Longrightarrow> ymd2ord y' m' d' < ymd2ord y m d" by (rule ymd2ord_less[OF v' v])
  have c: "?eq \<Longrightarrow> ymd2ord y m d = ymd2ord y' m' d'" by simp
  have lt: "ymd2ord y m d < ymd2ord y' m' d' \<longleftrightarrow> ?lt"
  proof
    assume "ymd2ord y m d < ymd2ord y' m' d'"
    then show ?lt using tri b c by auto
  next
    assume ?lt then show "ymd2ord y m d < ymd2ord y' m' d'" by (rule a)
  qed
  have eq: "ymd2ord y m d = ymd2ord y' m' d' \<longleftrightarrow> ?eq"
  proof
    assume "ymd2ord y m d = ymd2ord y' m' d'"
    then show ?eq using tri a b by auto
  next
    assume ?eq then show "ymd2ord y m d = ymd2ord y' m' d'" by (rule c)
  qed
  from lt eq show ?thesis by (rule conjI)
qed

lemma split_10:
  assumes "length s = 10"
  shows "s = take 4 s @ s ! 4 # take 2 (drop 5 s) @ s ! 7 # drop 8 s"
proof -
  have a: "drop 4 s = s ! 4 # drop 5 s"
    using Cons_nth_drop_Suc[of 4 s] assms by simp
  have b: "drop 7 s = s ! 7 # drop 8 s"
    using Cons_nth_drop_Suc[of 7 s] assms by simp
  have c: "drop 5 s = take 2 (drop 5 s) @ drop 7 s"
    using append_take_drop_id[of 2 "drop 5 s"] by simp
  have "s = take 4 s @ drop 4 s" by simp
  also have "\<dots> = take 4 s @ s ! 4 # (take 2 (drop 5 s) @ drop 7 s)"
    using a c by simp
  finally show ?thesis using b by simp
qed

lemma iso_date_fields:
  assumes "iso_date s"
  obtains ys ms ds y m d where
    "s = ys @ CHR ''-'' # ms @ CHR ''-'' # ds"
    "length ys = 4" "length ms = 2" "length ds = 2"
    "decimal 0 ys = Some y" "decimal 0 ms = Some m" "decimal 0 ds = Some d"
    "1 \<le> y" "1 \<le> m" "m \<le> 12" "1 \<le> d" "d \<le> days_in_month y m"
    "iso_Timestamp s = Some (int (ymd2ord y m d))"
proof -
  have len: "length s = 10" and some: "iso_Timestamp s \<noteq> None"
    using assms by (simp_all add: iso_date_def)
  have dash: "s ! 4 = CHR ''-'' \<and> s ! 7 = CHR ''-''"
  proof (rule ccontr)
    assume "\<not> (s ! 4 = CHR ''-'' \<and> s ! 7 = CHR ''-'')"
    then have "ymd_fields s = None" using len by (simp add: ymd_fields_def)
    then show False using some by (simp add: iso_Timestamp_def)
  qed
  let ?ys = "take 4 s" and ?ms = "take 2 (drop 5 s)" and ?ds = "drop 8 s"
  have f: "ymd_fields s = Some (?ys, ?ms, ?ds)" using len dash by (simp add: ymd_fields_def)
  obtain y m d where dec: "decimal 0 ?ys = Some y" "decimal 0 ?ms = Some m" "decimal 0 ?ds = Some d"
    using some unfolding iso_Timestamp_def f by (auto split: option.splits)
  have valid: "1 \<le> y \<and> 1 \<le> m \<and> m \<le> 12 \<and> 1 \<le> d \<and> d \<le> days_in_month y m"
    and ts: "iso_Timestamp s = Some (int (ymd2ord y m d))"
    using some unfolding iso_Timestamp_def f by (simp_all add: dec split: if_splits)
  have s: "s = ?ys @ CHR ''-'' # ?ms @ CHR ''-'' # ?ds"
    using split_10[OF len] dash by simp
  show thesis
    using that[OF s _ _ _ dec _ _ _ _ _ ts] valid len by simp
qed

lemma iso_date_order:
  assumes "iso_date s" and "iso_date t"
  shows "(s < t \<longleftrightarrow> the (iso_Timestamp s) < the (iso_Timestamp t)) \<and>
         (s = t \<longleftrightarrow> the (iso_Timestamp s) = the (iso_Timestamp t))"
proof -
  obtain ys ms ds y m d where s:
    "s = ys @ CHR ''-'' # ms @ CHR ''-'' # ds"
    "length ys = 4" "length ms = 2" "length ds = 2"
    "decimal 0 ys = Some y" "decimal 0 ms = Some m" "decimal 0 ds = Some d"
    and v: "1 \<le> y" "1 \<le> m" "m \<le> 12" "1 \<le> d" "d \<le> days_in_month y m"
    and ts: "iso_Timestamp s = Some (int (ymd2ord y m d))"
    using iso_date_fields[OF assms(1)] by metis
  obtain ys' ms' ds' y' m' d' where t:
    "t = ys' @ CHR ''-'' # ms' @ CHR ''-'' # ds'"
    "length ys' = 4" "length ms' = 2" "length ds' = 2"
    "decimal 0 ys' = Some y'" "decimal 0 ms' = Some m'" "decimal 0 ds' = Some d'"
    and v': "1 \<le> y'" "1 \<le> m'" "m' \<le> 12" "1 \<le> d'" "d' \<le> days_in_month y' m'"
    and tt: "iso_Timestamp t = Some (int (ymd2ord y' m' d'))"
    using iso_date_fields[OF assms(2)] by metis
  have oy: "(ys < ys' \<longleftrightarrow> y < y') \<and> (ys = ys' \<longleftrightarrow> y = y')"
    using decimal_order[OF _ s(5) t(5)] s(2) t(2) by simp
  have om: "(ms < ms' \<longleftrightarrow> m < m') \<and> (ms = ms' \<longleftrightarrow> m = m')"
    using decimal_order[OF _ s(6) t(6)] s(3) t(3) by simp
  have od: "(ds < ds' \<longleftrightarrow> d < d') \<and> (ds = ds' \<longleftrightarrow> d = d')"
    using decimal_order[OF _ s(7) t(7)] s(4) t(4) by simp
  have lt: "s < t \<longleftrightarrow> ys < ys' \<or> ys = ys' \<and> (ms < ms' \<or> ms = ms' \<and> ds < ds')"
  proof -
    have "s < t \<longleftrightarrow> ys < ys' \<or> ys = ys' \<and> (ms @ CHR ''-'' # ds < ms' @ CHR ''-'' # ds')"
      unfolding s(1) t(1) using s(2) t(2) by (simp add: append_less_same_length)
    also have "(ms @ CHR ''-'' # ds < ms' @ CHR ''-'' # ds') \<longleftrightarrow>
               ms < ms' \<or> ms = ms' \<and> ds < ds'"
      using s(3) t(3) by (simp add: append_less_same_length)
    finally show ?thesis .
  qed
  have eq: "s = t \<longleftrightarrow> ys = ys' \<and> ms = ms' \<and> ds = ds'"
    unfolding s(1) t(1) using s(2,3) t(2,3) by auto
  have ord: "(ymd2ord y m d < ymd2ord y' m' d' \<longleftrightarrow>
           y < y' \<or> y = y' \<and> (m < m' \<or> m = m' \<and> d < d')) \<and>
         (ymd2ord y m d = ymd2ord y' m' d' \<longleftrightarrow> y = y' \<and> m = m' \<and> d = d')"
    by (rule ymd2ord_order[OF v v'])
  show ?thesis unfolding ts tt using lt eq oy om od ord by simp
qed

lemma iso_date_le:
  assumes "iso_date s" and "iso_date t"
  shows "s \<le> t \<longleftrightarrow> the (iso_Timestamp s) \<le> the (iso_Timestamp t)"
  using iso_date_order[OF assms] by (auto simp: le_less)

lemma get_data_text_interval:
  assumes "\<forall>f \<in> set file_names. \<exists>rows. snd f = Table rows \<and>
             (\<forall>row \<in> set rows. start_date < fst row \<and> fst row \<le> end_date
                \<longrightarrow> Timestamp (fst row) \<noteq> None)"
    and "distinct (map (\<lambda>f. take (length (fst f) - 4) (fst f)) file_names)"
  shows "\<exists>data. get_data Timestamp file_names start_date end_date = Inr data \<and>
           (\<forall>file_name rows. (file_name, Table rows) \<in> set file_names \<longrightarrow>
              (\<exists>df. map_of data (take (length file_name - 4) file_name) = Some df \<and>
                 df = map (\<lambda>row. (the (Timestamp (fst row)), snd row))
                        (filter (\<lambda>row. start_date < fst row \<and> fst row \<le> end_date) rows) \<and>
                 ((\<forall>row \<in> set rows. start_date \<le> fst row \<and> fst row \<le> end_date) \<longrightarrow>
                    length df = length rows - length (filter (\<lambda>row. fst row = start_date) rows))))"
proof -
  have ok: "\<forall>f \<in> set file_names. \<exists>df. read_frame Timestamp (snd f) start_date end_date = Inr df"
    using assms(1) read_frame_readable by blast
  obtain data where d: "get_data Timestamp file_names start_date end_date = Inr data"
    "\<forall>f \<in> set file_names.
              map_of data (take (length (fst f) - 4) (fst f)) =
                Some (projr (read_frame Timestamp (snd f) start_date end_date))"
    using get_data_lookup[OF ok assms(2)] by blast
  have "\<exists>df. map_of data (take (length file_name - 4) file_name) = Some df \<and>
                 df = map (\<lambda>row. (the (Timestamp (fst row)), snd row))
                        (filter (\<lambda>row. start_date < fst row \<and> fst row \<le> end_date) rows) \<and>
                 ((\<forall>row \<in> set rows. start_date \<le> fst row \<and> fst row \<le> end_date) \<longrightarrow>
                    length df = length rows - length (filter (\<lambda>row. fst row = start_date) rows))"
    if mem: "(file_name, Table rows) \<in> set file_names" for file_name rows
  proof -
    have par: "\<forall>row \<in> set rows. start_date < fst row \<and> fst row \<le> end_date
                \<longrightarrow> Timestamp (fst row) \<noteq> None"
      using assms(1) mem by fastforce
    have rf: "read_frame Timestamp (Table rows) start_date end_date =
       Inr (map (\<lambda>row. (the (Timestamp (fst row)), snd row))
            (filter (\<lambda>row. start_date < fst row \<and> fst row \<le> end_date) rows))"
      using par by (simp add: read_frame_Table)
    have "map_of data (take (length file_name - 4) file_name) =
        Some (projr (read_frame Timestamp (Table rows) start_date end_date))"
      using d(2) mem by fastforce
    then show ?thesis using rf filter_spanning_interval[of rows start_date end_date] by simp
  qed
  then show ?thesis using d(1) by blast
qed


lemma iso_date_parses: "iso_date s \<Longrightarrow> iso_Timestamp s \<noteq> None"
  by (simp add: iso_date_def)

lemma day_of_order:
  assumes "iso_date s" and "iso_date t"
  shows "(s < t \<longleftrightarrow> day_of s < day_of t)" and "(s \<le> t \<longleftrightarrow> day_of s \<le> day_of t)"
    and "(s = t \<longleftrightarrow> day_of s = day_of t)"
  using iso_date_order[OF assms] iso_date_le[OF assms] by (simp_all add: day_of_def)

text \<open>
  C5 (as the code has it): the mask compares the text of the dates. When the dates of the
  files, \<open>start_date\<close> and \<open>end_date\<close> are all written in full as \<open>YYYY-MM-DD\<close>, text order
  is date order: ingestion returns a dictionary, and the frame of each file holds exactly
  the rows whose date lies in the half-open interval from \<open>start_date\<close> (excluded) to
  \<open>end_date\<close> (included), in file order; when every date of the file lies between the two
  bounds its length is the number of rows minus the number of rows dated \<open>start_date\<close>.
\<close>

theorem get_data_half_open_interval_of_iso_dates:
  assumes "\<forall>f \<in> set file_names. \<exists>rows. snd f = Table rows \<and> (\<forall>row \<in> set rows. iso_date (fst row))"
    and "iso_date start_date" and "iso_date end_date"
    and "distinct (map (\<lambda>f. take (length (fst f) - 4) (fst f)) file_names)"
  shows "\<exists>data. get_data iso_Timestamp file_names start_date end_date = Inr data \<and>
           (\<forall>file_name rows. (file_name, Table rows) \<in> set file_names \<longrightarrow>
              (\<exists>df. map_of data (take (length file_name - 4) file_name) = Some df \<and>
                 df = map (\<lambda>row. (day_of (fst row), snd row))
                        (filter (\<lambda>row. day_of start_date < day_of (fst row)
                                   \<and> day_of (fst row) \<le> day_of end_date) rows) \<and>
                 ((\<forall>row \<in> set rows. day_of start_date \<le> day_of (fst row)
                                   \<and> day_of (fst row) \<le> day_of end_date) \<longrightarrow>
                    length df = length rows
                      - length (filter (\<lambda>row. day_of (fst row) = day_of start_date) rows))))"
proof -
  have readable: "\<forall>f \<in> set file_names. \<exists>rows. snd f = Table rows \<and>
             (\<forall>row \<in> set rows. start_date < fst row \<and> fst row \<le> end_date
                \<longrightarrow> iso_Timestamp (fst row) \<noteq> None)"
    using assms(1) iso_date_parses by blast
  from get_data_text_interval[OF readable assms(4)]
  obtain data where d: "get_data iso_Timestamp file_names start_date end_date = Inr data"
    and tord: "\<forall>file_name rows. (file_name, Table rows) \<in> set file_names \<longrightarrow>
              (\<exists>df. map_of data (take (length file_name - 4) file_name) = Some df \<and>
                 df = map (\<lambda>row. (the (iso_Timestamp (fst row)), snd row))
                        (filter (\<lambda>row. start_date < fst row \<and> fst row \<le> end_date) rows) \<and>
                 ((\<forall>row \<in> set rows. start_date \<le> fst row \<and> fst row \<le> end_date) \<longrightarrow>
                    length df = length rows - length (filter (\<lambda>row. fst row = start_date) rows)))"
    by blast
  have "\<exists>df. map_of data (take (length file_name - 4) file_name) = Some df \<and>
                 df = map (\<lambda>row. (day_of (fst row), snd row))
                        (filter (\<lambda>row. day_of start_date < day_of (fst row)
                                   \<and> day_of (fst row) \<le> day_of end_date) rows) \<and>
                 ((\<forall>row \<in> set rows. day_of start_date \<le> day_of (fst row)
                                   \<and> day_of (fst row) \<le> day_of end_date) \<longrightarrow>
                    length df = length rows
                      - length (filter (\<lambda>row. day_of (fst row) = day_of start_date) rows))"
    if mem: "(file_name, Table rows) \<in> set file_names" for file_name rows
  proof -
    have iso: "\<And>row. row \<in> set rows \<Longrightarrow> iso_date (fst row)"
      using assms(1) mem by fastforce
    have f1: "filter (\<lambda>row. start_date < fst row \<and> fst row \<le> end_date) rows =
              filter (\<lambda>row. day_of start_date < day_of (fst row)
                                   \<and> day_of (fst row) \<le> day_of end_date) rows"
      by (rule filter_cong[OF refl])
        (simp add: day_of_order(1)[OF assms(2) iso] day_of_order(2)[OF iso assms(3)])
    have f2: "filter (\<lambda>row. fst row = start_date) rows =
              filter (\<lambda>row. day_of (fst row) = day_of start_date) rows"
      by (rule filter_cong[OF refl]) (simp add: day_of_order(3)[OF iso assms(2)])
    have span: "(\<forall>row \<in> set rows. start_date \<le> fst row \<and> fst row \<le> end_date) \<longleftrightarrow>
                (\<forall>row \<in> set rows. day_of start_date \<le> day_of (fst row)
                                   \<and> day_of (fst row) \<le> day_of end_date)"
      by (rule ball_cong[OF refl])
        (simp add: day_of_order(2)[OF assms(2) iso] day_of_order(2)[OF iso assms(3)])
    obtain df where df: "map_of data (take (length file_name - 4) file_name) = Some df"
      "df = map (\<lambda>row. (the (iso_Timestamp (fst row)), snd row))
                        (filter (\<lambda>row. start_date < fst row \<and> fst row \<le> end_date) rows)"
      "(\<forall>row \<in> set rows. start_date \<le> fst row \<and> fst row \<le> end_date) \<longrightarrow>
                    length df = length rows - length (filter (\<lambda>row. fst row = start_date) rows)"
      using tord mem by blast
    have "df = map (\<lambda>row. (day_of (fst row), snd row))
                        (filter (\<lambda>row. day_of start_date < day_of (fst row)
                                   \<and> day_of (fst row) \<le> day_of end_date) rows)"
      using df(2) unfolding f1 by (simp add: day_of_def)
    moreover have "(\<forall>row \<in> set rows. day_of start_date \<le> day_of (fst row)
                                   \<and> day_of (fst row) \<le> day_of end_date) \<longrightarrow>
                    length df = length rows
                      - length (filter (\<lambda>row. day_of (fst row) = day_of start_date) rows)"
      using df(3) unfolding span f2 .
    ultimately show ?thesis using df(1) by blast
  qed
  then show ?thesis using d by blast
qed

lemma iso_date_2015_01_01: "iso_date ''2015-01-01''" by (simp add: iso_date_def iso_2015_01_01)
lemma iso_date_2015_01_02: "iso_date ''2015-01-02''" by (simp add: iso_date_def iso_2015_01_02)
lemma iso_date_2015_12_31: "iso_date ''2015-12-31''" by (simp add: iso_date_def iso_2015_12_31)

theorem get_data_half_open_interval_of_iso_dates_witness:
  "\<exists>data. get_data iso_Timestamp
     [(''ADI.csv'', Table [(''2015-01-01'', [0::rat]), (''2015-01-02'', [1]), (''2015-12-31'', [3])])]
     ''2015-01-01'' ''2015-12-31'' = Inr data \<and>
     map_of data ''ADI'' = Some [(735600, [1]), (735963, [3])]"
proof -
  let ?rows = "[(''2015-01-01'', [0::rat]), (''2015-01-02'', [1]), (''2015-12-31'', [3])]"
  let ?files = "[(''ADI.csv'', Table ?rows)]"
  have h1: "\<forall>f \<in> set ?files. \<exists>rows. snd f = Table rows \<and> (\<forall>row \<in> set rows. iso_date (fst row))"
    by (simp add: iso_date_2015_01_01 iso_date_2015_01_02 iso_date_2015_12_31)
  have h2: "distinct (map (\<lambda>f. take (length (fst f) - 4) (fst f)) ?files)" by simp
  from get_data_half_open_interval_of_iso_dates[OF h1 iso_date_2015_01_01 iso_date_2015_12_31 h2]
  obtain data where d: "get_data iso_Timestamp ?files ''2015-01-01'' ''2015-12-31'' = Inr data"
    and all: "\<forall>file_name rows. (file_name, Table rows) \<in> set ?files \<longrightarrow>
              (\<exists>df. map_of data (take (length file_name - 4) file_name) = Some df \<and>
                 df = map (\<lambda>row. (day_of (fst row), snd row))
                        (filter (\<lambda>row. day_of ''2015-01-01'' < day_of (fst row)
                                   \<and> day_of (fst row) \<le> day_of ''2015-12-31'') rows) \<and>
                 ((\<forall>row \<in> set rows. day_of ''2015-01-01'' \<le> day_of (fst row)
                                   \<and> day_of (fst row) \<le> day_of ''2015-12-31'') \<longrightarrow>
                    length df = length rows
                      - length (filter (\<lambda>row. day_of (fst row) = day_of ''2015-01-01'') rows)))"
    by blast
  have "(''ADI.csv'', Table ?rows) \<in> set ?files" by simp
  then have "\<exists>df. map_of data (take (length ''ADI.csv'' - 4) ''ADI.csv'') = Some df \<and>
                 df = map (\<lambda>row. (day_of (fst row), snd row))
                        (filter (\<lambda>row. day_of ''2015-01-01'' < day_of (fst row)
                                   \<and> day_of (fst row) \<le> day_of ''2015-12-31'') ?rows) \<and>
                 ((\<forall>row \<in> set ?rows. day_of ''2015-01-01'' \<le> day_of (fst row)
                                   \<and> day_of (fst row) \<le> day_of ''2015-12-31'') \<longrightarrow>
                    length df = length ?rows
                      - length (filter (\<lambda>row. day_of (fst row) = day_of ''2015-01-01'') ?rows))"
    using all[rule_format, of "''ADI.csv''" ?rows] by simp
  then have "map_of data ''ADI'' = Some [(735600, [1]), (735963, [3])]"
    by (simp add: day_of_def iso_2015_01_01 iso_2015_01_02 iso_2015_12_31)
  with d show ?thesis by (intro exI[of _ data] conjI)
qed

lemma iso_2017_4_01: "iso_Timestamp ''2017-4-01'' = Some 736420" by (simp add: iso_defs upt_rec)
lemma iso_2017_05_02: "iso_Timestamp ''2017-05-02'' = Some 736451" by (simp add: iso_defs upt_rec)
lemma iso_2017_12_31: "iso_Timestamp ''2017-12-31'' = Some 736694" by (simp add: iso_defs upt_rec)

theorem text_order_drops_row_in_interval_counterexample:
  "iso_Timestamp ''2017-4-01'' = Some 736420 \<and>
   iso_Timestamp ''2017-05-02'' = Some 736451 \<and>
   iso_Timestamp ''2017-12-31'' = Some 736694 \<and>
   get_data iso_Timestamp [(''ADI.csv'', Table [(''2017-05-02'', [1::rat])])]
     ''2017-4-01'' ''2017-12-31'' = Inr [(''ADI'', [])]"
  by (simp add: iso_2017_4_01 iso_2017_05_02 iso_2017_12_31 get_data_def read_frame_def)

end
